theory Spec2Isabelle
  imports Main "HOL-Library.Word" "HOL-Library.Signed_Division"
begin

unbundle bit_operations_syntax

chapter \<open>DCC generator firmware: a shallow embedding of \<^verbatim>\<open>ArduinoGenerator.ino\<close>\<close>

text \<open>
  The definitions follow the sketch \<^verbatim>\<open>src/ArduinoGenerator.ino\<close> in its native
  configuration (\<^verbatim>\<open>DCC_PLUS_PLUS_COMPATIBILITY\<close> undefined, \<^verbatim>\<open>ASSERT_VERIFICATION\<close>
  defined, the debugging macros undefined).  A C \<^verbatim>\<open>byte\<close> is an 8-bit word; a C
  \<^verbatim>\<open>int\<close> is an integer, the command arguments being range checked before they are
  used, and the sums of the error queue's overflow count and of the current monitor's
  accumulators are cut to the 16 bits of the target by \<open>int16\<close>; arrays are lists;
  linked lists are lists in link order; a routine that writes global variables takes
  the state and returns the new one.
\<close>

section \<open>Constants\<close>

type_synonym byte = "8 word"

definition MAXIMUM_DCC_COMMAND :: nat where "MAXIMUM_DCC_COMMAND = 6"
definition BIT_TRANSITIONS :: nat where "BIT_TRANSITIONS = 40"
definition MAXIMUM_BIT_ITERATIONS :: byte where "MAXIMUM_BIT_ITERATIONS = 255"
definition DCC_SHORT_PREAMBLE :: byte where "DCC_SHORT_PREAMBLE = 15"
definition DCC_LONG_PREAMBLE :: byte where "DCC_LONG_PREAMBLE = 30"

section \<open>Packing a DCC command into run-length cells (\<^verbatim>\<open>pack_command\<close>)\<close>

text \<open>
  The local variables of \<^verbatim>\<open>pack_command\<close>: \<open>ps_l\<close> is \<^verbatim>\<open>l\<close>, the cells still free in
  the destination; \<open>ps_b\<close> is \<^verbatim>\<open>b\<close>, \<open>0\<close> while 0s are counted and \<open>0x80\<close> while 1s are
  counted; \<open>ps_c\<close> is the run counter \<^verbatim>\<open>c\<close>; \<open>ps_buf\<close> holds the cells stored through
  \<^verbatim>\<open>*buf++\<close> so far, in order.  \<^verbatim>\<open>ASSERT\<close> does not stop the routine: it calls
  \<^verbatim>\<open>report_error( ASSERT_FAILED, __LINE__ )\<close> and carries on, so \<open>ps_asserts\<close> collects
  the source lines of the assertions that failed, in order.
\<close>

record pack_state =
  ps_l :: byte
  ps_b :: byte
  ps_c :: byte
  ps_buf :: "byte list"
  ps_asserts :: "nat list"

text \<open>
  The body shared by the bit loop (lines 1941-1963) and the inter-byte step (lines
  1974-1996): \<open>w\<close> is the wanted bit as \<open>0\<close> or \<open>0x80\<close>.  When it is the bit being
  counted the counter is incremented (a \<^verbatim>\<open>byte\<close>, so it wraps) after the assertion
  \<^verbatim>\<open>c < MAXIMUM_BIT_ITERATIONS\<close>; otherwise \<^verbatim>\<open>if(!( --l )) return( false )\<close>, the counter is
  stored and counting restarts at 1 for the other bit.  \<open>Inl\<close> is the state at a
  \<^verbatim>\<open>return( false )\<close>, \<open>Inr\<close> the state with which the routine carries on.
\<close>

definition pack_count :: "nat \<Rightarrow> byte \<Rightarrow> pack_state \<Rightarrow> pack_state + pack_state" where
  "pack_count line w s =
     (if w = ps_b s
      then Inr (s\<lparr>ps_c := ps_c s + 1,
                   ps_asserts := (if ps_c s < MAXIMUM_BIT_ITERATIONS then ps_asserts s
                                  else ps_asserts s @ [line])\<rparr>)
      else (let l' = ps_l s - 1 in
            if l' = 0 then Inl (s\<lparr>ps_l := l'\<rparr>)
            else Inr (s\<lparr>ps_l := l', ps_buf := ps_buf s @ [ps_c s], ps_c := 1,
                          ps_b := ps_b s XOR 0x80\<rparr>)))"

text \<open>The loop \<^verbatim>\<open>for( s = 0; s < 8; s++ )\<close> with \<^verbatim>\<open>v <<= 1\<close> at its end; \<open>n\<close> counts the
  iterations left.\<close>

fun pack_bits :: "nat \<Rightarrow> byte \<Rightarrow> pack_state \<Rightarrow> pack_state + pack_state" where
  "pack_bits 0 v s = Inr s"
| "pack_bits (Suc n) v s =
     (case pack_count 1946 (v AND 0x80) s of
        Inl f \<Rightarrow> Inl f
      | Inr s' \<Rightarrow> pack_bits n (push_bit 1 v) s')"

text \<open>The loop \<^verbatim>\<open>while( clen-- )\<close>: the list is the \<^verbatim>\<open>clen\<close> bytes at \<^verbatim>\<open>cmd\<close>, and after
  the decrement \<^verbatim>\<open>clen\<close> is non-zero exactly when bytes remain.\<close>

fun pack_bytes :: "byte list \<Rightarrow> pack_state \<Rightarrow> pack_state + pack_state" where
  "pack_bytes [] s = Inr s"
| "pack_bytes (v # vs) s =
     (case pack_bits 8 v s of
        Inl f \<Rightarrow> Inl f
      | Inr s' \<Rightarrow>
          (case pack_count 1979 (if vs = [] then 0x80 else 0) s' of
             Inl f \<Rightarrow> Inl f
           | Inr s'' \<Rightarrow> pack_bytes vs s''))"

text \<open>
  \<^verbatim>\<open>pack_command( cmd, clen, long_preamble, buf )\<close>.  \<open>pack_start\<close> is the state before the
  byte loop: the preamble stored, \<^verbatim>\<open>l = BIT_TRANSITIONS-1\<close>, and the 0 that ends the
  preamble counted.  The result is the list of failed assertions, the value returned, and
  the cells written to \<^verbatim>\<open>buf\<close> from its start (on success the closing zero included).
\<close>

definition pack_start :: "bool \<Rightarrow> pack_state" where
  "pack_start long_preamble =
     \<lparr>ps_l = word_of_nat (BIT_TRANSITIONS - 1), ps_b = 0, ps_c = 1,
      ps_buf = [if long_preamble then DCC_LONG_PREAMBLE else DCC_SHORT_PREAMBLE],
      ps_asserts = []\<rparr>"

definition pack_command :: "byte list \<Rightarrow> bool \<Rightarrow> nat list \<times> bool \<times> byte list" where
  "pack_command cmd long_preamble =
     (case pack_bytes cmd (pack_start long_preamble) of
        Inl f \<Rightarrow> (ps_asserts f, False, ps_buf f)
      | Inr s \<Rightarrow>
          (let l1 = ps_l s - 1 in
           if l1 = 0 then (ps_asserts s, False, ps_buf s)
           else
             (let a = (if ps_c s < MAXIMUM_BIT_ITERATIONS then ps_asserts s
                       else ps_asserts s @ [2004]);
                  l2 = l1 - 1 in
              if l2 = 0 then (a, False, ps_buf s @ [ps_c s])
              else (a, True, ps_buf s @ [ps_c s, 0]))))"

text \<open>
  How the signal generator reads a cell array (interrupt routine, lines 1759-1766 and
  1853-1855): the first cell counts 1s, every further cell counts the opposite bit, and a
  zero cell ends the stream.
\<close>

fun decode_cells :: "bool \<Rightarrow> byte list \<Rightarrow> bool list" where
  "decode_cells ones [] = []"
| "decode_cells ones (c # cs) =
     (if c = 0 then [] else replicate (unat c) ones @ decode_cells (\<not> ones) cs)"

text \<open>The eight bits of a byte, most significant first.\<close>

definition byte_bits :: "byte \<Rightarrow> bool list" where
  "byte_bits v = map (bit v) [7, 6, 5, 4, 3, 2, 1, 0]"

text \<open>
  The bit sequence of a DCC packet in the words of the specification: the preamble 1s,
  one 0, the bytes most significant bit first with one 0 between them, one 1 after the
  last byte, and the postamble 1s.
\<close>

definition dcc_packet_bits :: "nat \<Rightarrow> nat \<Rightarrow> byte list \<Rightarrow> bool list" where
  "dcc_packet_bits preamble postamble cmd =
     replicate preamble True @ [False] @
     concat (map (\<lambda>v. byte_bits v @ [False]) (butlast cmd)) @
     byte_bits (last cmd) @ [True] @ replicate postamble True"

subsection \<open>Auxiliary notions for the proofs about \<^verbatim>\<open>pack_command\<close>\<close>

text \<open>The bits of a list of non-zero cells, the first cell counting the bit \<open>ones\<close>.\<close>

fun runs :: "bool \<Rightarrow> byte list \<Rightarrow> bool list" where
  "runs ones [] = []"
| "runs ones (c # cs) = replicate (unat c) ones @ runs (\<not> ones) cs"

text \<open>The bits the loop of \<open>pack_bits\<close> looks at, in order.\<close>

fun msb_first :: "nat \<Rightarrow> byte \<Rightarrow> bool list" where
  "msb_first 0 v = []"
| "msb_first (Suc n) v = bit v 7 # msb_first n (push_bit 1 v)"

text \<open>The stream a state of the packing loop stands for, and what the loop maintains:
  \<open>b\<close> is one of its two values and agrees with the parity of the cells stored, the
  counter is between 1 and \<open>n\<close>, no stored cell is zero and no assertion has failed.\<close>

definition pack_stream :: "pack_state \<Rightarrow> bool list" where
  "pack_stream s = runs True (ps_buf s) @ replicate (unat (ps_c s)) (ps_b s = 0x80)"

definition pack_inv :: "nat \<Rightarrow> pack_state \<Rightarrow> bool" where
  "pack_inv n s \<longleftrightarrow>
     (ps_b s = 0 \<or> ps_b s = 0x80) \<and> (ps_b s = 0x80 \<longleftrightarrow> even (length (ps_buf s))) \<and>
     0 < unat (ps_c s) \<and> unat (ps_c s) \<le> n \<and> (\<forall>c \<in> set (ps_buf s). c \<noteq> 0) \<and>
     ps_asserts s = []"

text \<open>What the byte loop appends: each byte, then a 0 when bytes remain and a 1 after
  the last byte.\<close>

fun packet_bits :: "byte list \<Rightarrow> bool list" where
  "packet_bits [] = []"
| "packet_bits (v # vs) = byte_bits v @ [vs = []] @ packet_bits vs"

section \<open>The data of the firmware\<close>

text \<open>Error numbers (lines 2091-2114) and the assertion error (line 567).\<close>

definition ERROR_QUEUE_OVERFLOW :: int where "ERROR_QUEUE_OVERFLOW = 1"
definition BIT_TRANS_OVERFLOW :: int where "BIT_TRANS_OVERFLOW = 3"
definition INVALID_ARGUMENT_COUNT :: int where "INVALID_ARGUMENT_COUNT = 7"
definition INVALID_ADDRESS :: int where "INVALID_ADDRESS = 8"
definition INVALID_SPEED :: int where "INVALID_SPEED = 9"
definition INVALID_DIRECTION :: int where "INVALID_DIRECTION = 10"
definition INVALID_STATE :: int where "INVALID_STATE = 11"
definition INVALID_CV_NUMBER :: int where "INVALID_CV_NUMBER = 12"
definition INVALID_FUNC_NUMBER :: int where "INVALID_FUNC_NUMBER = 13"
definition INVALID_BYTE_VALUE :: int where "INVALID_BYTE_VALUE = 16"
definition COMMAND_REPORT_FAIL :: int where "COMMAND_REPORT_FAIL = 18"
definition TRANSMISSION_BUSY :: int where "TRANSMISSION_BUSY = 19"
definition COMMAND_QUEUE_FAILED :: int where "COMMAND_QUEUE_FAILED = 20"
definition POWER_NOT_OFF :: int where "POWER_NOT_OFF = 21"
definition POWER_OVERLOAD :: int where "POWER_OVERLOAD = 22"
definition POWER_SPIKE :: int where "POWER_SPIKE = 23"
definition ASSERT_FAILED :: int where "ASSERT_FAILED = 99"

definition ERROR_QUEUE_SIZE :: byte where "ERROR_QUEUE_SIZE = 5"

text \<open>Buffer states and reply modes (lines 1140-1143 and 1208-1210), stored in a \<^verbatim>\<open>byte\<close>.\<close>

definition TBS_EMPTY :: byte where "TBS_EMPTY = 0"
definition TBS_LOAD :: byte where "TBS_LOAD = 1"
definition TBS_RUN :: byte where "TBS_RUN = 2"
definition TBS_RELOAD :: byte where "TBS_RELOAD = 3"

definition NO_REPLY_REQUIRED :: byte where "NO_REPLY_REQUIRED = 0"
definition REPLY_ON_CONFIRM :: byte where "REPLY_ON_CONFIRM = 1"
definition REPLY_ON_SEND :: byte where "REPLY_ON_SEND = 2"

text \<open>The partition of the transmission buffers (lines 326-344).\<close>

definition ACCESSORY_TRANS_BUFFERS :: nat where "ACCESSORY_TRANS_BUFFERS = 3"
definition MOBILE_TRANS_BUFFERS :: nat where "MOBILE_TRANS_BUFFERS = 6"
definition PROGRAMMING_BUFFERS :: nat where "PROGRAMMING_BUFFERS = 1"
definition ACCESSORY_BASE_BUFFER :: nat where "ACCESSORY_BASE_BUFFER = 0"
definition MOBILE_BASE_BUFFER :: nat where
  "MOBILE_BASE_BUFFER = ACCESSORY_BASE_BUFFER + ACCESSORY_TRANS_BUFFERS"
definition PROGRAMMING_BASE_BUFFER :: nat where
  "PROGRAMMING_BASE_BUFFER = MOBILE_BASE_BUFFER + MOBILE_TRANS_BUFFERS"
definition TRANSMISSION_BUFFERS :: nat where
  "TRANSMISSION_BUFFERS = PROGRAMMING_BASE_BUFFER + PROGRAMMING_BUFFERS"

text \<open>Repeat counts (lines 306-308), pins (lines 438-478) and tick counts (lines 533-534).\<close>

definition TRANSIENT_COMMAND_REPEATS :: byte where "TRANSIENT_COMMAND_REPEATS = 8"
definition SERVICE_MODE_RESET_REPEATS :: byte where "SERVICE_MODE_RESET_REPEATS = 20"
definition SERVICE_MODE_COMMAND_REPEATS :: byte where "SERVICE_MODE_COMMAND_REPEATS = 10"

definition MAIN_TRACK_DIRECTION :: nat where "MAIN_TRACK_DIRECTION = 12"
definition MAIN_TRACK_ENABLE :: nat where "MAIN_TRACK_ENABLE = 3"
definition MAIN_TRACK_ANALOGUE :: nat where "MAIN_TRACK_ANALOGUE = 0"
definition PROG_TRACK_DIRECTION :: nat where "PROG_TRACK_DIRECTION = 13"
definition PROG_TRACK_ENABLE :: nat where "PROG_TRACK_ENABLE = 11"
definition PROG_TRACK_ANALOGUE :: nat where "PROG_TRACK_ANALOGUE = 1"

definition TICKS_FOR_ONE :: byte where "TICKS_FOR_ONE = 4"

text \<open>Limits of the current monitor (lines 256-263, 2351, 2359).\<close>

definition INSTANT_CURRENT_LIMIT :: int where "INSTANT_CURRENT_LIMIT = 750"
definition AVERAGE_CURRENT_LIMIT :: int where "AVERAGE_CURRENT_LIMIT = 500"
definition MINIMUM_DELTA_AMPS :: int where "MINIMUM_DELTA_AMPS = 35"
definition COMPOUNDED_VALUES :: nat where "COMPOUNDED_VALUES = 10"
definition SHORT_AVERAGE_VALUE :: nat where "SHORT_AVERAGE_VALUE = 2"

definition OUTPUT_QUEUE_SIZE :: nat where "OUTPUT_QUEUE_SIZE = 64"

text \<open>
  \<^verbatim>\<open>PENDING_PACKET\<close> (lines 659-666).  \<open>pp_command\<close> holds the \<^verbatim>\<open>len\<close> bytes of
  \<^verbatim>\<open>command[]\<close> that \<^verbatim>\<open>copy_with_parity\<close> wrote; the bytes of the array beyond them are
  never read.  The \<^verbatim>\<open>next\<close> link is the order of the list the record stands in.
\<close>

record pending_packet =
  pp_target :: int
  pp_lpreamble :: bool
  pp_duration :: byte
  pp_len :: byte
  pp_command :: "byte list"

text \<open>\<^verbatim>\<open>FUNCTION_CACHE\<close> (lines 843-848); the links are the order of the list.\<close>

record func_cache =
  fc_target :: int
  fc_bits :: "byte list"

text \<open>\<^verbatim>\<open>QUEUED_ERROR\<close> (lines 2125-2128).\<close>

record queued_error =
  err :: int
  arg :: int

text \<open>
  \<^verbatim>\<open>TRANS_BUFFER\<close> (lines 1226-1295).  \<open>next_buf\<close> is the index in \<^verbatim>\<open>circular_buffer\<close> of the
  buffer \<^verbatim>\<open>next\<close> points to; \<open>bits\<close> is the array of \<open>BIT_TRANSITIONS\<close> cells; \<open>pending\<close>
  is the linked list of pending packets, head first, \<open>[]\<close> for \<^verbatim>\<open>NULL\<close>; \<open>contains\<close> is
  the reply text up to its \<^verbatim>\<open>EOS\<close>.  The \<^verbatim>\<open>display\<close> text of the LCD is left out.
\<close>

record trans_buffer =
  state :: byte
  target :: int
  duration :: byte
  bits :: "byte list"
  pending :: "pending_packet list"
  reply :: byte
  contains :: string
  next_buf :: nat

datatype power_state = GLOBAL_POWER_OFF | GLOBAL_POWER_MAIN | GLOBAL_POWER_PROG

text \<open>What \<^verbatim>\<open>bit_string\<close> points into: the \<^verbatim>\<open>bits\<close> of a buffer, \<^verbatim>\<open>dcc_idle_packet\<close> or
  \<^verbatim>\<open>dcc_filler_data\<close>.\<close>

datatype bit_source = BufferBits nat | IdlePacket | FillerData

text \<open>
  The global variables.  Pointers into \<^verbatim>\<open>circular_buffer\<close> (\<^verbatim>\<open>current\<close>, \<^verbatim>\<open>manage\<close>) are
  indices; \<open>bit_string\<close> is the array pointed into and the offset in it; \<open>pins\<close> is the
  level last written to each output pin by \<^verbatim>\<open>digitalWrite\<close>; \<open>queue_data\<close> is the text
  waiting in the output queue, oldest character first (the circular buffer
  \<^verbatim>\<open>queue_data\<close> with \<^verbatim>\<open>queue_in\<close>, \<^verbatim>\<open>queue_out\<close> and \<^verbatim>\<open>queue_len\<close>); \<open>adc_channel\<close> is the
  analogue input selected in \<^verbatim>\<open>ADMUX\<close>.
\<close>

record firmware =
  free_pending_packets :: "pending_packet list"
  function_cache :: "func_cache list"
  queue_data :: string
  track_load_reading :: int
  reading_is_ready :: bool
  adc_channel :: nat
  circular_buffer :: "trans_buffer list"
  current :: nat
  output_pin :: nat
  side :: bool
  remaining :: byte
  reload :: byte
  one :: bool
  left :: byte
  bit_string :: "bit_source \<times> nat"
  statistic_packets :: int
  error_queue :: "queued_error list"
  error_in :: byte
  error_out :: byte
  errors_pending :: byte
  global_power_state :: power_state
  pins :: "nat \<Rightarrow> bool"
  load_compound_value :: "int list"
  load_confirmed :: bool
  manage :: nat

section \<open>The error queue (\<^verbatim>\<open>report_error\<close>)\<close>

text \<open>
  An \<^verbatim>\<open>int\<close> of the sketch has 16 bits (the AVR processors of the Arduino boards).  What
  such a variable holds after an addition is \<open>int16\<close> of the sum: its low 16 bits read
  in two's complement, the sum itself when it lies in -32768..32767.
\<close>

definition int16 :: "int \<Rightarrow> int" where
  "int16 x = sint (word_of_int x :: 16 word)"

text \<open>
  The loop of lines 2167-2175 over the queue: the first record whose error is
  \<open>ERROR_QUEUE_OVERFLOW\<close> gets its argument incremented (\<^verbatim>\<open>error_queue[ i ].arg++\<close>, on an
  \<^verbatim>\<open>int\<close>); \<open>None\<close> when there is none.
\<close>

fun count_overflow :: "queued_error list \<Rightarrow> queued_error list option" where
  "count_overflow [] = None"
| "count_overflow (q # qs) =
     (if err q = ERROR_QUEUE_OVERFLOW then Some (q\<lparr>arg := int16 (arg q + 1)\<rparr> # qs)
      else map_option ((#) q) (count_overflow qs))"

text \<open>\<^verbatim>\<open>report_error( err, arg )\<close> (lines 2142-2200).\<close>

definition report_error :: "int \<Rightarrow> int \<Rightarrow> firmware \<Rightarrow> firmware" where
  "report_error e a s =
     (if errors_pending s < ERROR_QUEUE_SIZE
      then (let i = error_in s; i1 = error_in s + 1 in
            s\<lparr>error_queue := (error_queue s)[unat i := \<lparr>err = e, arg = a\<rparr>],
              error_in := (if i1 = ERROR_QUEUE_SIZE then 0 else i1),
              errors_pending := errors_pending s + 1\<rparr>)
      else (case count_overflow (error_queue s) of
              Some q \<Rightarrow> s\<lparr>error_queue := q\<rparr>
            | None \<Rightarrow>
                (let i = (if error_in s \<noteq> 0 then error_in s - 1 else ERROR_QUEUE_SIZE - 1) in
                 s\<lparr>error_queue :=
                     (error_queue s)[unat i := \<lparr>err = ERROR_QUEUE_OVERFLOW, arg = 1\<rparr>]\<rparr>)))"

text \<open>A series of reports, one after the other.\<close>

fun report_errors :: "(int \<times> int) list \<Rightarrow> firmware \<Rightarrow> firmware" where
  "report_errors [] s = s"
| "report_errors ((e, a) # rs) s = report_errors rs (report_error e a s)"

section \<open>The state after \<^verbatim>\<open>setup\<close>\<close>



text \<open>
  The state \<^verbatim>\<open>setup\<close> leaves (lines 2740-2836): statics are zero, every pin has been
  written \<^verbatim>\<open>LOW\<close>, \<^verbatim>\<open>link_buffer_chain\<close> has emptied the buffers and linked them in a
  loop, \<^verbatim>\<open>initialise_data_structures\<close> has put the pending records on the free list and
  primed the interrupt routine on the idle packet, \<^verbatim>\<open>init_function_cache\<close> has filled the
  cache with empty records, and the main track's analogue input is selected.
\<close>

definition empty_buffer :: "nat \<Rightarrow> trans_buffer" where
  "empty_buffer i =
     \<lparr>state = TBS_EMPTY, target = 0, duration = 0, bits = replicate BIT_TRANSITIONS 0,
      pending = [], reply = NO_REPLY_REQUIRED, contains = [],
      next_buf = (if i = TRANSMISSION_BUFFERS - 1 then 0 else i + 1)\<rparr>"

definition setup_state :: firmware where
  "setup_state =
     \<lparr>free_pending_packets =
        replicate TRANSMISSION_BUFFERS
          \<lparr>pp_target = 0, pp_lpreamble = False, pp_duration = 0, pp_len = 0, pp_command = []\<rparr>,
      function_cache =
        replicate MOBILE_TRANS_BUFFERS \<lparr>fc_target = 0, fc_bits = [0, 0, 0, 0]\<rparr>,
      queue_data = [],
      track_load_reading = 0,
      reading_is_ready = False,
      adc_channel = MAIN_TRACK_ANALOGUE,
      circular_buffer = map empty_buffer [0..<TRANSMISSION_BUFFERS],
      current = 0,
      output_pin = MAIN_TRACK_DIRECTION,
      side = True,
      remaining = 1,
      reload = TICKS_FOR_ONE,
      one = True,
      left = DCC_SHORT_PREAMBLE,
      bit_string = (IdlePacket, 1),
      statistic_packets = 0,
      error_queue = replicate (unat ERROR_QUEUE_SIZE) \<lparr>err = 0, arg = 0\<rparr>,
      error_in = 0,
      error_out = 0,
      errors_pending = 0,
      global_power_state = GLOBAL_POWER_OFF,
      pins = (\<lambda>p. False),
      load_compound_value = replicate COMPOUNDED_VALUES 0,
      load_confirmed = False,
      manage = 0\<rparr>"

section \<open>The function cache\<close>

definition FUNCTION_BIT_ARRAY :: nat where "FUNCTION_BIT_ARRAY = 4"
definition MAXIMUM_SHORT_ADDRESS :: int where "MAXIMUM_SHORT_ADDRESS = 127"
definition FUNCTION_ON :: int where "FUNCTION_ON = 1"
definition FUNCTION_OFF :: int where "FUNCTION_OFF = 0"

text \<open>
  The cache is the list of its records from \<^verbatim>\<open>function_cache\<close> along \<^verbatim>\<open>next\<close>: most
  recently used first.  The assertions of the cache routines and of
  \<^verbatim>\<open>compose_function_change\<close> report to the error queue and touch nothing else; they are
  not part of these functions on the cache.

  The search loop of \<^verbatim>\<open>find_func_cache\<close> (lines 894-924): the first record for the
  target, taken out of the list, with the list that remains.
\<close>

fun detach_target :: "int \<Rightarrow> func_cache list \<Rightarrow> (func_cache \<times> func_cache list) option" where
  "detach_target t [] = None"
| "detach_target t (r # rs) =
     (if fc_target r = t then Some (r, rs)
      else map_option (\<lambda>(x, xs). (x, r # xs)) (detach_target t rs))"

text \<open>
  \<^verbatim>\<open>find_func_cache( target )\<close> (lines 884-946).  The record returned is the head of
  the cache afterwards, so the result is the new cache.  A record found is moved to the
  head.  Otherwise the last record of the list is unlinked, given the target and empty
  function bits, and linked in at the head; with fewer than two records that code
  dereferences \<^verbatim>\<open>NULL\<close>, which is \<open>None\<close> here (the cache always holds
  \<open>MOBILE_TRANS_BUFFERS\<close> records).
\<close>

definition find_func_cache :: "int \<Rightarrow> func_cache list \<Rightarrow> func_cache list option" where
  "find_func_cache t cache =
     (case detach_target t cache of
        Some (r, rest) \<Rightarrow> Some (r # rest)
      | None \<Rightarrow>
          (if length cache < 2 then None
           else Some (\<lparr>fc_target = t, fc_bits = replicate FUNCTION_BIT_ARRAY 0\<rparr> # butlast cache)))"

text \<open>
  \<^verbatim>\<open>update_function( target, func, state )\<close> (lines 953-983): the value returned and
  the cache.  An index outside \<^verbatim>\<open>bits[]\<close> is \<open>None\<close>.
\<close>

definition update_function ::
  "int \<Rightarrow> byte \<Rightarrow> bool \<Rightarrow> func_cache list \<Rightarrow> (bool \<times> func_cache list) option" where
  "update_function t func st cache =
     (case find_func_cache t cache of
        None \<Rightarrow> None
      | Some [] \<Rightarrow> None
      | Some (r # rest) \<Rightarrow>
          (let i = unat (drop_bit 3 func); b = push_bit (unat (func AND 7)) (1 :: byte) in
           if length (fc_bits r) \<le> i then None
           else if st
             then (if fc_bits r ! i AND b \<noteq> 0 then Some (False, r # rest)
                   else Some (True, r\<lparr>fc_bits := (fc_bits r)[i := fc_bits r ! i OR b]\<rparr> # rest))
             else (if fc_bits r ! i AND b = 0 then Some (False, r # rest)
                   else Some (True, r\<lparr>fc_bits := (fc_bits r)[i := fc_bits r ! i AND NOT b]\<rparr> # rest))))"

text \<open>\<^verbatim>\<open>get_function( target, func, val )\<close> (lines 989-1001).\<close>

definition get_function ::
  "int \<Rightarrow> byte \<Rightarrow> byte \<Rightarrow> func_cache list \<Rightarrow> (byte \<times> func_cache list) option" where
  "get_function t func val cache =
     (case find_func_cache t cache of
        None \<Rightarrow> None
      | Some [] \<Rightarrow> None
      | Some (r # rest) \<Rightarrow>
          (let i = unat (drop_bit 3 func); b = push_bit (unat (func AND 7)) (1 :: byte) in
           if length (fc_bits r) \<le> i then None
           else Some (if fc_bits r ! i AND b \<noteq> 0 then val else 0, r # rest)))"

text \<open>An expression \<^verbatim>\<open>acc | get_function( adrs, f1, v1 ) | get_function( adrs, f2, v2 ) ...\<close>,
  the calls made from left to right.\<close>

fun or_functions ::
  "int \<Rightarrow> (byte \<times> byte) list \<Rightarrow> byte \<Rightarrow> func_cache list \<Rightarrow> (byte \<times> func_cache list) option" where
  "or_functions adrs [] acc cache = Some (acc, cache)"
| "or_functions adrs ((f, v) # fs) acc cache =
     (case get_function adrs f v cache of
        None \<Rightarrow> None
      | Some (x, cache') \<Rightarrow> or_functions adrs fs (acc OR x) cache')"

section \<open>Composing DCC packets\<close>

text \<open>Storing an \<^verbatim>\<open>int\<close> in a \<^verbatim>\<open>byte\<close> keeps its low eight bits.\<close>

definition to_byte :: "int \<Rightarrow> byte" where
  "to_byte x = word_of_int x"

text \<open>The address bytes, written the same way by \<^verbatim>\<open>compose_motion_packet\<close> (lines
  3210-3218) and \<^verbatim>\<open>compose_function_change\<close> (lines 3281-3289).\<close>

definition address_bytes :: "int \<Rightarrow> byte list" where
  "address_bytes adrs =
     (if adrs > MAXIMUM_SHORT_ADDRESS
      then [to_byte (0xC0 OR drop_bit 8 adrs), to_byte (adrs AND 0xFF)]
      else [to_byte adrs])"

text \<open>
  \<^verbatim>\<open>compose_function_change( command, adrs, func, state )\<close> (lines 3268-3359): the bytes
  written to \<^verbatim>\<open>command\<close> (as many as the length returned) and the cache.
\<close>

definition compose_function_change ::
  "int \<Rightarrow> int \<Rightarrow> int \<Rightarrow> func_cache list \<Rightarrow> (byte list \<times> func_cache list) option" where
  "compose_function_change adrs func st cache =
     (case update_function adrs (to_byte func) (st = FUNCTION_ON) cache of
        None \<Rightarrow> None
      | Some (False, cache1) \<Rightarrow> Some ([0xFF, 0x00], cache1)
      | Some (True, cache1) \<Rightarrow>
          (if func \<le> 4 then
             map_option (\<lambda>(x, c). (address_bytes adrs @ [x], c))
               (or_functions adrs [(0, 0x10), (1, 0x01), (2, 0x02), (3, 0x04), (4, 0x08)] 0x80 cache1)
           else if func \<le> 8 then
             map_option (\<lambda>(x, c). (address_bytes adrs @ [x], c))
               (or_functions adrs [(5, 0x01), (6, 0x02), (7, 0x04), (8, 0x08)] 0xB0 cache1)
           else if func \<le> 12 then
             map_option (\<lambda>(x, c). (address_bytes adrs @ [x], c))
               (or_functions adrs [(9, 0x01), (10, 0x02), (11, 0x04), (12, 0x08)] 0xA0 cache1)
           else if func \<le> 20 then
             map_option (\<lambda>(x, c). (address_bytes adrs @ [0xDE, x], c))
               (or_functions adrs [(13, 0x01), (14, 0x02), (15, 0x04), (16, 0x08),
                  (17, 0x10), (18, 0x20), (19, 0x40), (20, 0x80)] 0 cache1)
           else
             map_option (\<lambda>(x, c). (address_bytes adrs @ [0xDF, x], c))
               (or_functions adrs [(21, 0x01), (22, 0x02), (23, 0x04), (24, 0x08),
                  (25, 0x10), (26, 0x20), (27, 0x40), (28, 0x80)] 0 cache1)))"

section \<open>Replies and the output queue\<close>

text \<open>
  \<^verbatim>\<open>int_to_text\<close> (lines 1411-1429): the decimal digits of a positive number, the most
  significant first (the routine collects the remainders of the divisions by 10 and
  writes them in reverse), then the text of an \<^verbatim>\<open>int\<close>.
\<close>

function digits_of :: "nat \<Rightarrow> string" where
  "digits_of n = (if n = 0 then [] else digits_of (n div 10) @ [''0123456789'' ! (n mod 10)])"
  by pat_completeness auto
termination
  by (relation "measure id") auto

declare digits_of.simps [simp del]

definition int_to_text :: "int \<Rightarrow> string" where
  "int_to_text v =
     (if v = 0 then ''0''
      else (if v < 0 then ''-'' else []) @ digits_of (nat \<bar>v\<bar>))"

text \<open>The reply builders (lines 2039-2074) in native mode: \<^verbatim>\<open>PROT_IN_CHAR\<close> is \<open>[\<close>,
  \<^verbatim>\<open>PROT_OUT_CHAR\<close> is \<open>]\<close>, \<^verbatim>\<open>HASH\<close> is \<open>#\<close>.\<close>

definition NL :: char where "NL = CHR 0x0A"
definition HASH :: char where "HASH = CHR ''#''"

definition reply_1 :: "char \<Rightarrow> int \<Rightarrow> string" where
  "reply_1 code a1 = [CHR ''['', code] @ int_to_text a1 @ [CHR '']'', NL]"

definition reply_2 :: "char \<Rightarrow> int \<Rightarrow> int \<Rightarrow> string" where
  "reply_2 code a1 a2 =
     [CHR ''['', code] @ int_to_text a1 @ '' '' @ int_to_text a2 @ [CHR '']'', NL]"

definition reply_2c :: "char \<Rightarrow> int \<Rightarrow> int \<Rightarrow> string" where
  "reply_2c code a1 a2 =
     [CHR ''['', code] @ int_to_text a1 @ '' '' @ int_to_text a2 @ '' '' @ [HASH] @ [CHR '']'', NL]"

definition reply_3 :: "char \<Rightarrow> int \<Rightarrow> int \<Rightarrow> int \<Rightarrow> string" where
  "reply_3 code a1 a2 a3 =
     [CHR ''['', code] @ int_to_text a1 @ '' '' @ int_to_text a2 @ '' '' @ int_to_text a3 @
     [CHR '']'', NL]"

text \<open>\<^verbatim>\<open>queue_output( buf )\<close> (lines 1383-1393) on the text waiting in the queue: the value
  returned and the queue.\<close>

fun queue_output :: "string \<Rightarrow> string \<Rightarrow> bool \<times> string" where
  "queue_output [] q = (True, q)"
| "queue_output (c # cs) q =
     (if OUTPUT_QUEUE_SIZE \<le> length q then (False, q) else queue_output cs (q @ [c]))"

text \<open>A character as the \<^verbatim>\<open>int\<close> argument of \<^verbatim>\<open>report_error\<close>.\<close>

definition char_code :: "char \<Rightarrow> int" where
  "char_code c = of_char c"

text \<open>The statement \<^verbatim>\<open>if( !queue_output( text )) report_error( COMMAND_REPORT_FAIL, a )\<close>.\<close>

definition send_text :: "string \<Rightarrow> int \<Rightarrow> firmware \<Rightarrow> firmware" where
  "send_text txt a s =
     (let (ok, q) = queue_output txt (queue_data s); s' = s\<lparr>queue_data := q\<rparr> in
      if ok then s' else report_error COMMAND_REPORT_FAIL a s')"

section \<open>Power selection\<close>

text \<open>\<^verbatim>\<open>power_on_main_track\<close>, \<^verbatim>\<open>power_on_prog_track\<close> and \<^verbatim>\<open>power_off_tracks\<close> (lines
  2290-2336): the value returned and the state.\<close>

definition power_on_main_track :: "firmware \<Rightarrow> bool \<times> firmware" where
  "power_on_main_track s =
     (global_power_state s \<noteq> GLOBAL_POWER_MAIN,
      s\<lparr>output_pin := MAIN_TRACK_DIRECTION,
        pins := (pins s)(MAIN_TRACK_ENABLE := True, PROG_TRACK_ENABLE := False),
        global_power_state := GLOBAL_POWER_MAIN\<rparr>)"

definition power_on_prog_track :: "firmware \<Rightarrow> bool \<times> firmware" where
  "power_on_prog_track s =
     (global_power_state s \<noteq> GLOBAL_POWER_PROG,
      s\<lparr>output_pin := PROG_TRACK_DIRECTION,
        pins := (pins s)(MAIN_TRACK_ENABLE := False, PROG_TRACK_ENABLE := True),
        global_power_state := GLOBAL_POWER_PROG\<rparr>)"

definition power_off_tracks :: "firmware \<Rightarrow> bool \<times> firmware" where
  "power_off_tracks s =
     (global_power_state s \<noteq> GLOBAL_POWER_OFF,
      s\<lparr>pins := (pins s)(MAIN_TRACK_ENABLE := False, PROG_TRACK_ENABLE := False),
        global_power_state := GLOBAL_POWER_OFF\<rparr>)"

text \<open>The macros \<^verbatim>\<open>RESTART_ANALOGUE_READ\<close> and \<^verbatim>\<open>MONITOR_ANALOGUE_PIN\<close> (lines 1591-1596);
  starting the conversion in \<^verbatim>\<open>ADCSRA\<close> is outside the state.\<close>

definition RESTART_ANALOGUE_READ :: "firmware \<Rightarrow> firmware" where
  "RESTART_ANALOGUE_READ s = s\<lparr>track_load_reading := 0, reading_is_ready := False\<rparr>"

definition MONITOR_ANALOGUE_PIN :: "nat \<Rightarrow> firmware \<Rightarrow> firmware" where
  "MONITOR_ANALOGUE_PIN p s = RESTART_ANALOGUE_READ (s\<lparr>adc_channel := p mod 8\<rparr>)"

text \<open>\<^verbatim>\<open>link_main_buffers\<close> and \<^verbatim>\<open>link_prog_buffers\<close> (lines 2670-2692).\<close>

definition set_next :: "nat \<Rightarrow> nat \<Rightarrow> trans_buffer list \<Rightarrow> trans_buffer list" where
  "set_next i n bufs = bufs[i := (bufs ! i)\<lparr>next_buf := n\<rparr>]"

definition link_main_buffers :: "firmware \<Rightarrow> firmware" where
  "link_main_buffers s =
     s\<lparr>circular_buffer :=
         set_next (TRANSMISSION_BUFFERS - 1) 0
           (set_next (PROGRAMMING_BASE_BUFFER - 1) 0 (circular_buffer s))\<rparr>"

definition link_prog_buffers :: "firmware \<Rightarrow> firmware" where
  "link_prog_buffers s =
     s\<lparr>circular_buffer :=
         set_next (TRANSMISSION_BUFFERS - 1) PROGRAMMING_BASE_BUFFER
           (set_next (PROGRAMMING_BASE_BUFFER - 1) PROGRAMMING_BASE_BUFFER (circular_buffer s))\<rparr>"

text \<open>
  \<^verbatim>\<open>scan_line\<close>, \<^verbatim>\<open>case 'P'\<close> (lines 4013-4081): \<open>args\<close> are the numbers \<^verbatim>\<open>parse_input\<close>
  found after the command letter.
\<close>

definition scan_line_P :: "int list \<Rightarrow> firmware \<Rightarrow> firmware" where
  "scan_line_P args s =
     (if length args \<noteq> 1 then report_error INVALID_ARGUMENT_COUNT (char_code CHR ''P'') s
      else if args ! 0 = 0 then
        send_text (reply_1 CHR ''P'' 0) (char_code CHR ''P'') (snd (power_off_tracks s))
      else if args ! 0 = 1 then
        (if global_power_state s \<noteq> GLOBAL_POWER_OFF
         then report_error POWER_NOT_OFF (char_code CHR ''P'') s
         else (let (changed, s1) = power_on_main_track s;
                   s2 = (if changed
                         then link_main_buffers (MONITOR_ANALOGUE_PIN MAIN_TRACK_ANALOGUE s1)
                         else s1) in
               send_text (reply_1 CHR ''P'' 1) (char_code CHR ''P'') s2))
      else if args ! 0 = 2 then
        (if global_power_state s \<noteq> GLOBAL_POWER_OFF
         then report_error POWER_NOT_OFF (char_code CHR ''P'') s
         else (let (changed, s1) = power_on_prog_track s;
                   s2 = (if changed
                         then link_prog_buffers (MONITOR_ANALOGUE_PIN PROG_TRACK_ANALOGUE s1)
                         else s1) in
               send_text (reply_1 CHR ''P'' 2) (char_code CHR ''P'') s2))
      else report_error INVALID_STATE (char_code CHR ''P'') s)"

section \<open>The current monitor (\<^verbatim>\<open>monitor_current_load\<close>)\<close>

text \<open>
  The loop of lines 2390-2392 over \<^verbatim>\<open>load_compound_value\<close>:
  \<^verbatim>\<open>amps = ( load_compound_value[ i ] = ( amps + load_compound_value[ i ]) >> 1 )\<close>.  The
  sum is one of two 16-bit \<^verbatim>\<open>int\<close>s (\<open>int16\<close>).  The shift of an \<^verbatim>\<open>int\<close> to the right keeps
  the sign (as the compiler of the sketch does it): it is \<open>drop_bit\<close> on the integers, a
  division by a power of 2 that rounds down.
\<close>

definition shift_right :: "int \<Rightarrow> nat \<Rightarrow> int" where
  "shift_right x n = drop_bit n x"

fun compound :: "int \<Rightarrow> int list \<Rightarrow> int list" where
  "compound amps [] = []"
| "compound amps (v # vs) =
     shift_right (int16 (amps + v)) 1 # compound (shift_right (int16 (amps + v)) 1) vs"

text \<open>What a power cut of \<^verbatim>\<open>monitor_current_load\<close> does when \<^verbatim>\<open>power_off_tracks\<close> changed
  the state (lines 2400-2414 and 2425-2429).\<close>

definition power_cut :: "int \<Rightarrow> int \<Rightarrow> firmware \<Rightarrow> firmware" where
  "power_cut e amps s =
     (let (changed, s1) = power_off_tracks s in
      if changed
      then (let s2 = send_text (''[P0]'' @ [NL]) (char_code CHR ''P'') (report_error e amps s1) in
            s2\<lparr>load_compound_value := map (\<lambda>v. 0) (load_compound_value s2)\<rparr>)
      else s1)"

text \<open>\<^verbatim>\<open>monitor_current_load( amps )\<close> (lines 2380-2446).  After the loop \<^verbatim>\<open>amps\<close> is the
  last value stored.\<close>

definition monitor_current_load :: "int \<Rightarrow> firmware \<Rightarrow> firmware" where
  "monitor_current_load amps s =
     (let acc = compound amps (load_compound_value s);
          amps' = (if acc = [] then amps else last acc);
          s1 = s\<lparr>load_compound_value := acc\<rparr> in
      if acc ! 1 > INSTANT_CURRENT_LIMIT then power_cut POWER_SPIKE amps' s1
      else if acc ! (COMPOUNDED_VALUES - 1) > AVERAGE_CURRENT_LIMIT
        then power_cut POWER_OVERLOAD amps' s1
      else RESTART_ANALOGUE_READ
             (if acc ! SHORT_AVERAGE_VALUE - acc ! (COMPOUNDED_VALUES - 1) > MINIMUM_DELTA_AMPS
              then s1\<lparr>load_confirmed := True\<rparr> else s1))"

section \<open>The signal generator (\<^verbatim>\<open>ISR( TIMER2_COMPA_vect )\<close>)\<close>








section \<open>Pending packets\<close>

text \<open>\<^verbatim>\<open>copy_with_parity( dest, src, len )\<close> (lines 690-699): the bytes written to \<^verbatim>\<open>dest\<close>
  and the length returned.\<close>

definition copy_with_parity :: "byte list \<Rightarrow> byte list \<times> byte" where
  "copy_with_parity src = (src @ [foldl (XOR) 0 src], word_of_nat (length src) + 1)"

text \<open>
  \<^verbatim>\<open>create_pending_rec( &tail, target, duration, lpreamble, len, cmd )\<close> (lines 705-746),
  where \<^verbatim>\<open>tail\<close> is the end of the pending list of buffer \<open>i\<close>: the value returned and the
  state.  The head of the free list is taken, filled in and linked in at the end of the
  pending list.  (The assertions of the routine hold for the callers embedded here, which
  pass a tail and a command of 2 to 4 bytes.)
\<close>

definition create_pending_rec ::
  "nat \<Rightarrow> int \<Rightarrow> byte \<Rightarrow> bool \<Rightarrow> byte list \<Rightarrow> firmware \<Rightarrow> bool \<times> firmware" where
  "create_pending_rec i t d lp cmd s =
     (case free_pending_packets s of
        [] \<Rightarrow> (False, s)
      | p # free \<Rightarrow>
          (let r = \<lparr>pp_target = t, pp_lpreamble = lp, pp_duration = d,
                    pp_len = snd (copy_with_parity cmd), pp_command = fst (copy_with_parity cmd)\<rparr>;
               b = circular_buffer s ! i in
           (True, s\<lparr>free_pending_packets := free,
                    circular_buffer := (circular_buffer s)[i := b\<lparr>pending := pending b @ [r]\<rparr>]\<rparr>)))"

text \<open>\<^verbatim>\<open>release_pending_recs( head, one )\<close> (lines 750-767) on a list and the free list: the
  list returned and the free list.  Each record released becomes the head of the free
  list.\<close>

fun release_pending_recs ::
  "pending_packet list \<Rightarrow> bool \<Rightarrow> pending_packet list \<Rightarrow> pending_packet list \<times> pending_packet list" where
  "release_pending_recs [] only_one free = ([], free)"
| "release_pending_recs (p # ps) only_one free =
     (if only_one then (ps, p # free) else release_pending_recs ps only_one (p # free))"

text \<open>The statement \<^verbatim>\<open>buf->pending = release_pending_recs( buf->pending, one )\<close> for
  buffer \<open>i\<close>.\<close>

definition release_buffer :: "nat \<Rightarrow> bool \<Rightarrow> firmware \<Rightarrow> firmware" where
  "release_buffer i only_one s =
     (let b = circular_buffer s ! i;
          (rest, free) = release_pending_recs (pending b) only_one (free_pending_packets s) in
      s\<lparr>free_pending_packets := free,
        circular_buffer := (circular_buffer s)[i := b\<lparr>pending := rest\<rparr>]\<rparr>)"

text \<open>\<^verbatim>\<open>find_available_buffer( base, count, target )\<close> (lines 3154-3188): the index of the
  buffer returned, \<open>None\<close> for \<^verbatim>\<open>NULL\<close>.\<close>

definition find_available_buffer :: "nat \<Rightarrow> nat \<Rightarrow> int \<Rightarrow> trans_buffer list \<Rightarrow> nat option" where
  "find_available_buffer base count t bufs =
     (case find (\<lambda>i. target (bufs ! i) = t) [base..<base + count] of
        Some i \<Rightarrow> Some i
      | None \<Rightarrow> find (\<lambda>i. state (bufs ! i) = TBS_EMPTY) [base..<base + count])"

section \<open>Composing motion and programming packets\<close>

definition EMERGENCY_STOP :: int where "EMERGENCY_STOP = - 1"
definition MAXIMUM_DCC_ADDRESS :: int where "MAXIMUM_DCC_ADDRESS = 10239"
definition MINIMUM_DCC_ADDRESS :: int where "MINIMUM_DCC_ADDRESS = 1"
definition MAXIMUM_DCC_SPEED :: int where "MAXIMUM_DCC_SPEED = 126"
definition MINIMUM_DCC_SPEED :: int where "MINIMUM_DCC_SPEED = 0"
definition DCC_FORWARDS :: int where "DCC_FORWARDS = 1"
definition DCC_BACKWARDS :: int where "DCC_BACKWARDS = 0"
definition MINIMUM_CV_ADDRESS :: int where "MINIMUM_CV_ADDRESS = 1"
definition MAXIMUM_CV_ADDRESS :: int where "MAXIMUM_CV_ADDRESS = 1024"

text \<open>\<^verbatim>\<open>compose_motion_packet( command, adrs, speed, dir )\<close> (lines 3202-3238): the bytes
  written to \<^verbatim>\<open>command\<close>, as many as the length returned.\<close>

definition compose_motion_packet :: "int \<Rightarrow> int \<Rightarrow> int \<Rightarrow> byte list" where
  "compose_motion_packet adrs speed dir =
     address_bytes adrs @ [0x3F] @
     [if speed = 0 then to_byte (push_bit 7 dir)
      else if speed = EMERGENCY_STOP then to_byte (push_bit 7 dir OR 1)
      else to_byte (push_bit 7 dir OR (speed + 1))]"

text \<open>\<^verbatim>\<open>compose_digital_reset\<close> (lines 3364-3371) and \<^verbatim>\<open>compose_set_cv\<close> (lines 3376-3387).\<close>

definition compose_digital_reset :: "byte list" where
  "compose_digital_reset = [0, 0]"

definition compose_set_cv :: "int \<Rightarrow> int \<Rightarrow> byte list" where
  "compose_set_cv cv val =
     [to_byte (0x7C OR (drop_bit 8 (cv - MINIMUM_CV_ADDRESS) AND 3)),
      to_byte ((cv - MINIMUM_CV_ADDRESS) AND 0xFF),
      to_byte val]"

section \<open>Commands that queue packets (\<^verbatim>\<open>scan_line\<close>)\<close>

text \<open>The end of every such command: the reply text, the reply mode and the new state of
  the buffer (for example lines 4258-4260).\<close>

definition arm_buffer :: "nat \<Rightarrow> string \<Rightarrow> byte \<Rightarrow> firmware \<Rightarrow> firmware" where
  "arm_buffer i txt mode s =
     (let b = circular_buffer s ! i in
      s\<lparr>circular_buffer := (circular_buffer s)
          [i := b\<lparr>contains := txt, reply := mode,
                   state := (if state b = TBS_EMPTY then TBS_LOAD else TBS_RELOAD)\<rparr>]\<rparr>)"

text \<open>\<^verbatim>\<open>scan_line\<close>, \<^verbatim>\<open>case 'M'\<close> (lines 4180-4262).\<close>

definition scan_line_M :: "int list \<Rightarrow> firmware \<Rightarrow> firmware" where
  "scan_line_M args s =
     (if length args \<noteq> 3 then report_error INVALID_ARGUMENT_COUNT (char_code CHR ''M'') s
      else
        (let t = args ! 0; speed = args ! 1; dir = args ! 2 in
         if t < MINIMUM_DCC_ADDRESS \<or> t > MAXIMUM_DCC_ADDRESS then report_error INVALID_ADDRESS t s
         else if (speed < MINIMUM_DCC_SPEED \<or> speed > MAXIMUM_DCC_SPEED) \<and> speed \<noteq> EMERGENCY_STOP
           then report_error INVALID_SPEED speed s
         else if dir \<noteq> DCC_FORWARDS \<and> dir \<noteq> DCC_BACKWARDS then report_error INVALID_DIRECTION dir s
         else
           (case find_available_buffer MOBILE_BASE_BUFFER MOBILE_TRANS_BUFFERS t (circular_buffer s) of
              None \<Rightarrow> report_error TRANSMISSION_BUSY (char_code CHR ''M'') s
            | Some i \<Rightarrow>
                (let (ok, s1) =
                       create_pending_rec i t
                         (if speed = EMERGENCY_STOP \<or> speed = MINIMUM_DCC_SPEED
                          then TRANSIENT_COMMAND_REPEATS else 0)
                         False (compose_motion_packet t speed dir) (release_buffer i False s) in
                 if \<not> ok then report_error COMMAND_QUEUE_FAILED (char_code CHR ''M'') s1
                 else arm_buffer i (reply_3 CHR ''M'' t speed dir) REPLY_ON_SEND s1))))"

text \<open>\<^verbatim>\<open>scan_line\<close>, \<^verbatim>\<open>case 'S'\<close> (lines 4656-4736).\<close>

definition scan_line_S :: "int list \<Rightarrow> firmware \<Rightarrow> firmware" where
  "scan_line_S args s =
     (if length args \<noteq> 2 then report_error INVALID_ARGUMENT_COUNT (char_code CHR ''S'') s
      else
        (let cv = args ! 0; val = args ! 1 in
         if cv < MINIMUM_CV_ADDRESS \<or> cv > MAXIMUM_CV_ADDRESS then report_error INVALID_CV_NUMBER cv s
         else if val < 0 \<or> val > 255 then report_error INVALID_BYTE_VALUE val s
         else
           (case find_available_buffer PROGRAMMING_BASE_BUFFER PROGRAMMING_BUFFERS 0 (circular_buffer s) of
              None \<Rightarrow> report_error TRANSMISSION_BUSY (char_code CHR ''S'') s
            | Some i \<Rightarrow>
                (let (ok1, s1) =
                       create_pending_rec i 0 SERVICE_MODE_RESET_REPEATS True compose_digital_reset
                         (release_buffer i False s);
                     (ok2, s2) =
                       create_pending_rec i 0 SERVICE_MODE_COMMAND_REPEATS True (compose_set_cv cv val) s1;
                     (ok3, s3) =
                       create_pending_rec i 0 SERVICE_MODE_RESET_REPEATS True compose_digital_reset s2 in
                 if \<not> (ok1 \<and> ok2 \<and> ok3)
                 then report_error COMMAND_QUEUE_FAILED (char_code CHR ''S'') (release_buffer i False s3)
                 else arm_buffer i (reply_2c CHR ''S'' cv val) REPLY_ON_CONFIRM
                        (s3\<lparr>load_confirmed := False\<rparr>)))))"

section \<open>The buffer manager (\<^verbatim>\<open>management_service_routine\<close>)\<close>

text \<open>\<^verbatim>\<open>strchr( manage->contains, HASH )\<close> followed by the store through the pointer found
  (lines 2575-2579): the text with its first \<open>#\<close> replaced, \<open>None\<close> when it has none.\<close>

fun put_at_hash :: "char \<Rightarrow> string \<Rightarrow> string option" where
  "put_at_hash c [] = None"
| "put_at_hash c (x # xs) =
     (if x = HASH then Some (c # xs) else map_option ((#) x) (put_at_hash c xs))"

text \<open>The cells \<^verbatim>\<open>pack_command\<close> wrote, over the start of the array.\<close>

definition write_cells :: "byte list \<Rightarrow> byte list \<Rightarrow> byte list" where
  "write_cells cells old = cells @ drop (length cells) old"

text \<open>Lines 2488-2555: the buffer \<open>m\<close> is in \<open>TBS_LOAD\<close> and \<open>pp\<close> is the head of its pending
  list.  The assertions that failed in \<^verbatim>\<open>pack_command\<close> are reported first, in order.\<close>

definition load_pending :: "nat \<Rightarrow> pending_packet \<Rightarrow> firmware \<Rightarrow> firmware" where
  "load_pending m pp s =
     (let (failed, ok, cells) =
            pack_command (take (unat (pp_len pp)) (pp_command pp)) (pp_lpreamble pp);
          s0 = fold (\<lambda>line. report_error ASSERT_FAILED (int line)) failed s;
          b = circular_buffer s0 ! m;
          b0 = b\<lparr>bits := write_cells cells (bits b)\<rparr> in
      if ok then
        (let (rest, free) = release_pending_recs (pending b0) True (free_pending_packets s0);
             b1 = b0\<lparr>target := pp_target pp, duration := pp_duration pp, state := TBS_RUN,
                     pending := rest\<rparr>;
             s1 = s0\<lparr>free_pending_packets := free,
                     circular_buffer := (circular_buffer s0)[m := b1]\<rparr> in
         if reply b1 = REPLY_ON_SEND \<and> rest = []
         then (let s2 = send_text (contains b1) (target b1) s1 in
               s2\<lparr>circular_buffer := (circular_buffer s2)[m := b1\<lparr>reply := NO_REPLY_REQUIRED\<rparr>]\<rparr>)
         else s1)
      else
        (let s1 = report_error BIT_TRANS_OVERFLOW (pp_target pp) s0;
             (rest, free) = release_pending_recs (pending b0) False (free_pending_packets s1) in
         s1\<lparr>free_pending_packets := free,
            circular_buffer := (circular_buffer s1)[m := b0\<lparr>state := TBS_EMPTY, pending := rest\<rparr>]\<rparr>))"

text \<open>Lines 2556-2605: the buffer \<open>m\<close> is in \<open>TBS_LOAD\<close> and its pending list is empty.\<close>

definition drain_buffer :: "nat \<Rightarrow> firmware \<Rightarrow> firmware" where
  "drain_buffer m s =
     (let b = circular_buffer s ! m;
          s1 = (if reply b = REPLY_ON_CONFIRM
                then (case put_at_hash (if load_confirmed s then CHR ''1'' else CHR ''0'') (contains b) of
                        Some txt \<Rightarrow>
                          send_text txt (target b)
                            (s\<lparr>circular_buffer := (circular_buffer s)[m := b\<lparr>contains := txt\<rparr>]\<rparr>)
                      | None \<Rightarrow>
                          (if load_confirmed s then send_text (contains b) (target b) s else s))
                else s);
          b1 = circular_buffer s1 ! m in
      s1\<lparr>circular_buffer := (circular_buffer s1)
           [m := b1\<lparr>reply := NO_REPLY_REQUIRED, state := TBS_EMPTY\<rparr>]\<rparr>)"

text \<open>\<^verbatim>\<open>management_service_routine\<close> (lines 2475-2612).\<close>

definition management_service_routine :: "firmware \<Rightarrow> firmware" where
  "management_service_routine s =
     (let m = manage s;
          b = circular_buffer s ! m;
          s1 = (if state b = TBS_LOAD
                then (case pending b of pp # rest \<Rightarrow> load_pending m pp s | [] \<Rightarrow> drain_buffer m s)
                else s) in
      s1\<lparr>manage := next_buf (circular_buffer s1 ! m)\<rparr>)"

subsection \<open>Auxiliary notion for the proofs about the room in the cell array\<close>





text \<open>
  A state for the end of a CV write: the command \<^verbatim>\<open>S 1 42\<close> was given after the start, its
  three packets have all been sent (the pending list of the programming buffer is empty
  again and the buffer is back in \<open>TBS_LOAD\<close>), a confirmation was seen, and the manager
  has come round to the programming buffer.
\<close>

definition confirming_state :: firmware where
  "confirming_state =
     (let s = scan_line_S [1, 42] setup_state;
          b = circular_buffer s ! PROGRAMMING_BASE_BUFFER in
      s\<lparr>manage := PROGRAMMING_BASE_BUFFER,
        circular_buffer := (circular_buffer s)[PROGRAMMING_BASE_BUFFER := b\<lparr>pending := []\<rparr>],
        load_confirmed := True\<rparr>)"

text \<open>
  A state for the current monitor: the main track was switched on after the start
  (\<^verbatim>\<open>P 1\<close>) and the first two accumulators stand high, at 1000 and 900.
\<close>

definition loaded_state :: firmware where
  "loaded_state =
     (scan_line_P [1] setup_state)\<lparr>load_compound_value := [1000, 900, 0, 0, 0, 0, 0, 0, 0, 0]\<rparr>"
section \<open>Properties of \<^verbatim>\<open>pack_command\<close>\<close>

subsection \<open>Runs and streams\<close>

lemma runs_snoc:
  "runs ones (cs @ [c]) = runs ones cs @ replicate (unat c) (if even (length cs) then ones else \<not> ones)"
  by (induction cs arbitrary: ones) auto

lemma decode_cells_runs:
  "\<forall>c \<in> set cs. c \<noteq> 0 \<Longrightarrow> decode_cells ones (cs @ 0 # rest) = runs ones cs"
  by (induction cs arbitrary: ones) auto

lemma top_bit_cases: "(v :: byte) AND 0x80 = (if bit v 7 then 0x80 else 0)"
proof -
  have A: "v AND 2 ^ 7 = 2 ^ 7" if "bit v 7"
    by (rule bit_eqI) (use that in \<open>auto simp only: bit_and_iff bit_exp_iff\<close>)
  have B: "v AND 2 ^ 7 = 0" if "\<not> bit v 7"
    using that and_exp_eq_0_iff_not_bit[of v 7] by blast
  from A B show ?thesis by (cases "bit v 7") simp_all
qed

lemma bit_shifted: "n < 8 \<Longrightarrow> bit (push_bit 1 (v :: byte)) n = (0 < n \<and> bit v (n - 1))"
  by (simp only: bit_push_bit_iff) (auto simp: possible_bit_word)

lemma msb_first_map: "n \<le> 8 \<Longrightarrow> msb_first n v = map (\<lambda>i. bit v (7 - i)) [0..<n]"
proof (induction n arbitrary: v)
  case 0
  then show ?case by simp
next
  case (Suc n)
  have "map (\<lambda>i. bit (push_bit 1 v) (7 - i)) [0..<n] = map (\<lambda>i. bit v (7 - Suc i)) [0..<n]"
    using Suc.prems by (auto simp only: bit_shifted map_eq_conv set_upt) auto
  with Suc show ?case
    by (simp add: upt_rec[of 0] map_Suc_upt[symmetric] del: upt_Suc push_bit_of_Suc_0)
qed

lemma msb_first_8: "msb_first 8 v = byte_bits v"
  by (simp add: byte_bits_def msb_first_map upt_rec[of _ 8] eval_nat_numeral del: msb_first.simps)

lemma unat_byte_Suc: "unat (c :: byte) < 255 \<Longrightarrow> unat (c + 1) = Suc (unat c)"
  by (simp add: unat_word_ariths)

lemma byte_less_255: "(c :: byte) < 255 \<longleftrightarrow> unat c < 255"
  by (simp add: word_less_nat_alt)

lemma pack_count_step:
  assumes inv: "pack_inv n s" and n: "n < 255" and w: "w = 0 \<or> w = 0x80"
    and step: "pack_count line w s = Inr s'"
  shows "pack_inv (Suc n) s' \<and> pack_stream s' = pack_stream s @ [w = 0x80]"
proof (cases "w = ps_b s")
  case True
  from inv n have c: "unat (ps_c s) < 255" by (simp add: pack_inv_def)
  from True step c have s': "s' = s\<lparr>ps_c := ps_c s + 1\<rparr>"
    using inv by (simp add: pack_count_def MAXIMUM_BIT_ITERATIONS_def byte_less_255 pack_inv_def)
  show ?thesis
    using inv c True by (auto simp: s' pack_inv_def pack_stream_def unat_byte_Suc replicate_append_same)
next
  case False
  with step have s': "s' = s\<lparr>ps_l := ps_l s - 1, ps_buf := ps_buf s @ [ps_c s], ps_c := 1,
      ps_b := ps_b s XOR 0x80\<rparr>"
    by (simp add: pack_count_def Let_def split: if_splits)
  from inv w False have b: "ps_b s XOR 0x80 = w"
    by (auto simp: pack_inv_def)
  show ?thesis
    using inv w False b
    by (auto simp: s' pack_inv_def pack_stream_def runs_snoc)
qed


lemma pack_bits_steps:
  "pack_inv n s \<Longrightarrow> n + k \<le> 255 \<Longrightarrow> pack_bits k v s = Inr s' \<Longrightarrow>
     pack_inv (n + k) s' \<and> pack_stream s' = pack_stream s @ msb_first k v"
proof (induction k arbitrary: n v s)
  case 0
  then show ?case by simp
next
  case (Suc k)
  from Suc.prems(3) obtain s1 where
    s1: "pack_count 1946 (v AND 0x80) s = Inr s1" and rest: "pack_bits k (push_bit 1 v) s1 = Inr s'"
    by (auto split: sum.splits)
  have w: "v AND 0x80 = 0 \<or> v AND 0x80 = 0x80" by (simp add: top_bit_cases)
  from Suc.prems(2) have "n < 255" by simp
  from pack_count_step[OF Suc.prems(1) this w s1]
  have i1: "pack_inv (Suc n) s1" and st1: "pack_stream s1 = pack_stream s @ [bit v 7]"
    by (simp_all add: top_bit_cases)
  from Suc.prems(2) have "Suc n + k \<le> 255" by simp
  from Suc.IH[OF i1 this rest] show ?case by (simp add: st1)
qed

lemma length_packet_bits: "length (packet_bits cmd) = 9 * length cmd"
  by (induction cmd) (simp_all add: byte_bits_def)

lemma packet_bits_spec:
  "cmd \<noteq> [] \<Longrightarrow> packet_bits cmd =
     concat (map (\<lambda>v. byte_bits v @ [False]) (butlast cmd)) @ byte_bits (last cmd) @ [True]"
  by (induction cmd) auto

lemma pack_bytes_steps:
  "pack_inv n s \<Longrightarrow> n + 9 * length cmd \<le> 255 \<Longrightarrow> pack_bytes cmd s = Inr s' \<Longrightarrow>
     pack_inv (n + 9 * length cmd) s' \<and> pack_stream s' = pack_stream s @ packet_bits cmd"
proof (induction cmd arbitrary: n s)
  case Nil
  then show ?case by simp
next
  case (Cons v vs)
  from Cons.prems(3) obtain s1 s2 where
    s1: "pack_bits 8 v s = Inr s1" and
    s2: "pack_count 1979 (if vs = [] then 0x80 else 0) s1 = Inr s2" and
    rest: "pack_bytes vs s2 = Inr s'"
    by (auto split: sum.splits)
  from Cons.prems(2) have "n + 8 \<le> 255" by simp
  from pack_bits_steps[OF Cons.prems(1) this s1]
  have i1: "pack_inv (n + 8) s1" and st1: "pack_stream s1 = pack_stream s @ byte_bits v"
    by (simp_all add: msb_first_8)
  from Cons.prems(2) have "n + 8 < 255" by simp
  from pack_count_step[OF i1 this _ s2]
  have i2: "pack_inv (Suc (n + 8)) s2" and st2: "pack_stream s2 = pack_stream s1 @ [vs = []]"
    by auto
  from Cons.prems(2) have "Suc (n + 8) + 9 * length vs \<le> 255" by simp
  have "Suc (n + 8) + 9 * length vs = n + 9 * length (v # vs)" by simp
  with Cons.IH[OF i2 \<open>Suc (n + 8) + 9 * length vs \<le> 255\<close> rest] show ?case
    by (simp only: st1 st2 packet_bits.simps append_assoc)
qed

text \<open>The whole routine on a command of at most 28 bytes: no assertion fails, no run
  counter wraps, and the cells are the stream of the preamble, the start bit and the
  bytes.\<close>

lemma pack_command_cells:
  assumes ok: "pack_command cmd long_preamble = (a, True, cells)" and len: "length cmd \<le> 28"
  shows "a = [] \<and>
         (\<exists>body. cells = body @ [0] \<and> (\<forall>c \<in> set body. c \<noteq> 0) \<and>
            runs True body =
              replicate (unat (if long_preamble then DCC_LONG_PREAMBLE else DCC_SHORT_PREAMBLE)) True
                @ [False] @ packet_bits cmd)"
proof -
  define s0 where "s0 = pack_start long_preamble"
  from ok obtain s where s: "pack_bytes cmd s0 = Inr s"
    and cells: "cells = ps_buf s @ [ps_c s, 0]"
    and a: "a = (if ps_c s < MAXIMUM_BIT_ITERATIONS then ps_asserts s else ps_asserts s @ [2004])"
    by (auto simp: pack_command_def s0_def Let_def split: sum.splits if_splits)
  have i0: "pack_inv 1 s0"
    by (simp add: pack_inv_def s0_def pack_start_def DCC_LONG_PREAMBLE_def DCC_SHORT_PREAMBLE_def)
  have st0: "pack_stream s0 =
      replicate (unat (if long_preamble then DCC_LONG_PREAMBLE else DCC_SHORT_PREAMBLE)) True @ [False]"
    by (simp add: pack_stream_def s0_def pack_start_def)
  from len have "1 + 9 * length cmd \<le> 255" by simp
  from pack_bytes_steps[OF i0 this s]
  have i: "pack_inv (1 + 9 * length cmd) s" and st: "pack_stream s = pack_stream s0 @ packet_bits cmd"
    by simp_all
  from i len have c: "unat (ps_c s) < 255" by (simp add: pack_inv_def)
  with a i have "a = []"
    by (simp add: MAXIMUM_BIT_ITERATIONS_def byte_less_255 pack_inv_def)
  moreover have "cells = (ps_buf s @ [ps_c s]) @ [0]" by (simp add: cells)
  moreover from i have "\<forall>c \<in> set (ps_buf s @ [ps_c s]). c \<noteq> 0"
    by (auto simp: pack_inv_def)
  moreover from i have "runs True (ps_buf s @ [ps_c s]) = pack_stream s"
    by (auto simp: runs_snoc pack_stream_def pack_inv_def)
  ultimately show ?thesis using st st0 by (metis append_assoc)
qed


subsection \<open>Claims about the cells\<close>

text \<open>
  Claim C7.  For every command that fits the command array of a pending packet (at most
  \<open>MAXIMUM_DCC_COMMAND\<close> bytes, parity included) and either preamble, when \<^verbatim>\<open>pack_command\<close>
  succeeds the cells it wrote end with the terminating zero, no cell before the
  terminator is zero, and no cell exceeds 255.
\<close>

theorem pack_command_cells_bounded:
  assumes "pack_command cmd long_preamble = (a, True, cells)"
    and "length cmd \<le> MAXIMUM_DCC_COMMAND"
  shows "cells \<noteq> [] \<and> last cells = 0 \<and> (\<forall>c \<in> set (butlast cells). c \<noteq> 0) \<and>
         (\<forall>c \<in> set cells. unat c \<le> 255)"
proof -
  from assms(2) have "length cmd \<le> 28" by (simp add: MAXIMUM_DCC_COMMAND_def)
  from pack_command_cells[OF assms(1) this] obtain body where
    "cells = body @ [0]" "\<forall>c \<in> set body. c \<noteq> 0" by blast
  moreover have "unat c \<le> 255" for c :: byte
    using unsigned_less[of c, where 'a = nat] by simp
  ultimately show ?thesis by simp
qed

theorem pack_command_cells_bounded_witness:
  "pack_command [0x03, 0x3F, 0x8B, 0xB7] False =
     ([], True, [15, 7, 2, 3, 6, 1, 1, 3, 1, 1, 2, 1, 1, 1, 2, 1, 4, 0]) \<and>
   length [0x03, 0x3F, 0x8B, 0xB7 :: byte] \<le> MAXIMUM_DCC_COMMAND \<and>
   last [15, 7, 2, 3, 6, 1, 1, 3, 1, 1, 2, 1, 1, 1, 2, 1, 4, 0 :: byte] = 0 \<and>
   0 \<notin> set (butlast [15, 7, 2, 3, 6, 1, 1, 3, 1, 1, 2, 1, 1, 1, 2, 1, 4, 0 :: byte])"
proof -
  have h1: "pack_command [0x03, 0x3F, 0x8B, 0xB7] False =
     ([], True, [15, 7, 2, 3, 6, 1, 1, 3, 1, 1, 2, 1, 1, 1, 2, 1, 4, 0])"
    by code_simp
  have h2: "length [0x03, 0x3F, 0x8B, 0xB7 :: byte] \<le> MAXIMUM_DCC_COMMAND"
    by (simp add: MAXIMUM_DCC_COMMAND_def)
  from pack_command_cells_bounded[OF h1 h2] h1 h2 show ?thesis by blast
qed

text \<open>
  Claim C1, as amended.  \<^verbatim>\<open>pack_command\<close> of this sketch takes the command and the
  preamble choice only: there is no postamble, and the stream ends with the single 1 that
  closes the packet.  For every command of 1 to 6 bytes (parity included) and either
  preamble, when \<^verbatim>\<open>pack_command\<close> succeeds, decoding the cells gives exactly the preamble
  1s (15 or 30), one 0, the bytes most significant bit first with one 0 between them, and
  one 1 after the last byte; the number of decoded bits is preamble + 1 + 9 n.
\<close>

theorem pack_command_roundtrip:
  assumes "pack_command cmd long_preamble = (a, True, cells)"
    and "1 \<le> length cmd" and "length cmd \<le> MAXIMUM_DCC_COMMAND"
  shows "decode_cells True cells =
           dcc_packet_bits (unat (if long_preamble then DCC_LONG_PREAMBLE else DCC_SHORT_PREAMBLE)) 0 cmd \<and>
         length (decode_cells True cells) =
           unat (if long_preamble then DCC_LONG_PREAMBLE else DCC_SHORT_PREAMBLE) + 1 + 9 * length cmd"
proof -
  from assms(3) have "length cmd \<le> 28" by (simp add: MAXIMUM_DCC_COMMAND_def)
  from pack_command_cells[OF assms(1) this] obtain body where
    cells: "cells = body @ [0]" and nz: "\<forall>c \<in> set body. c \<noteq> 0" and
    r: "runs True body =
          replicate (unat (if long_preamble then DCC_LONG_PREAMBLE else DCC_SHORT_PREAMBLE)) True
            @ [False] @ packet_bits cmd"
    by blast
  from decode_cells_runs[OF nz, of True "[]"] cells
  have d: "decode_cells True cells = runs True body" by simp
  from assms(2) have ne: "cmd \<noteq> []" by auto
  show ?thesis
    by (simp add: d r dcc_packet_bits_def packet_bits_spec[OF ne] length_packet_bits[symmetric])
qed

theorem pack_command_roundtrip_witness:
  "pack_command [0x03, 0x3F, 0x8B, 0xB7] False =
     ([], True, [15, 7, 2, 3, 6, 1, 1, 3, 1, 1, 2, 1, 1, 1, 2, 1, 4, 0]) \<and>
   1 \<le> length [0x03, 0x3F, 0x8B, 0xB7 :: byte] \<and>
   length [0x03, 0x3F, 0x8B, 0xB7 :: byte] \<le> MAXIMUM_DCC_COMMAND \<and>
   length (decode_cells True [15, 7, 2, 3, 6, 1, 1, 3, 1, 1, 2, 1, 1, 1, 2, 1, 4, 0]) = 15 + 1 + 9 * 4"
proof -
  have h1: "pack_command [0x03, 0x3F, 0x8B, 0xB7] False =
     ([], True, [15, 7, 2, 3, 6, 1, 1, 3, 1, 1, 2, 1, 1, 1, 2, 1, 4, 0])"
    by code_simp
  have h2: "1 \<le> length [0x03, 0x3F, 0x8B, 0xB7 :: byte]" by simp
  have h3: "length [0x03, 0x3F, 0x8B, 0xB7 :: byte] \<le> MAXIMUM_DCC_COMMAND"
    by (simp add: MAXIMUM_DCC_COMMAND_def)
  from pack_command_roundtrip[OF h1 h2 h3]
  have "length (decode_cells True [15, 7, 2, 3, 6, 1, 1, 3, 1, 1, 2, 1, 1, 1, 2, 1, 4, 0]) =
      unat (if False then DCC_LONG_PREAMBLE else DCC_SHORT_PREAMBLE) + 1 +
      9 * length [0x03, 0x3F, 0x8B, 0xB7 :: byte]"
    by (rule conjunct2)
  then have "length (decode_cells True [15, 7, 2, 3, 6, 1, 1, 3, 1, 1, 2, 1, 1, 1, 2, 1, 4, 0]) =
      15 + 1 + 9 * 4"
    by (simp add: DCC_SHORT_PREAMBLE_def)
  with h1 h2 h3 show ?thesis by blast
qed

text \<open>
  The claim as the specification states it counts a postamble after the closing 1, and
  the specification's postamble is at least 1.  On the one-byte command \<open>0xFF\<close> with the
  short preamble the routine succeeds with the cells 15, 1, 9, 0, which decode to 25 bits:
  15 + 1 + 9 and no more, so they are not the stream with a postamble of 1.
\<close>

theorem pack_command_no_postamble:
  "pack_command [0xFF] False = ([], True, [15, 1, 9, 0]) \<and>
   length (decode_cells True [15, 1, 9, 0]) = 15 + 1 + 9 * 1 \<and>
   decode_cells True [15, 1, 9, 0] \<noteq> dcc_packet_bits 15 1 [0xFF]"
proof -
  have p: "pack_command [0xFF] False = ([], True, [15, 1, 9, 0])" by code_simp
  have l1: "length (decode_cells True [15, 1, 9, 0]) = 15 + 1 + 9 * 1" by simp
  have l2: "length (dcc_packet_bits 15 1 [0xFF]) = 26"
    by (simp add: dcc_packet_bits_def byte_bits_def)
  have "decode_cells True [15, 1, 9, 0] \<noteq> dcc_packet_bits 15 1 [0xFF]"
  proof
    assume "decode_cells True [15, 1, 9, 0] = dcc_packet_bits 15 1 [0xFF]"
    then have "length (decode_cells True [15, 1, 9, 0]) = length (dcc_packet_bits 15 1 [0xFF])"
      by (rule arg_cong)
    then have "(15 + 1 + 9 * 1 :: nat) = 26" by (simp only: l1 l2)
    then show False by simp
  qed
  with p l1 show ?thesis by blast
qed

section \<open>Properties of the error queue\<close>

lemma int16_id: "- 32768 \<le> x \<Longrightarrow> x \<le> 32767 \<Longrightarrow> int16 x = x"
  by (simp add: int16_def int_word_sint)

lemma int16_add: "int16 (int16 x + y) = int16 (x + y)"
  by (simp add: int16_def)

lemma count_overflow_none:
  "\<forall>q \<in> set qs. err q \<noteq> ERROR_QUEUE_OVERFLOW \<Longrightarrow> count_overflow qs = None"
  by (induction qs) auto

lemma count_overflow_one:
  "\<forall>q \<in> set qs. err q \<noteq> ERROR_QUEUE_OVERFLOW \<Longrightarrow> i < length qs \<Longrightarrow>
   count_overflow (qs[i := \<lparr>err = ERROR_QUEUE_OVERFLOW, arg = n\<rparr>]) =
     Some (qs[i := \<lparr>err = ERROR_QUEUE_OVERFLOW, arg = int16 (n + 1)\<rparr>])"
proof (induction qs arbitrary: i)
  case Nil
  then show ?case by simp
next
  case (Cons q qs)
  then show ?case by (cases i) auto
qed

lemma report_error_counts:
  assumes "errors_pending t = ERROR_QUEUE_SIZE"
    and "error_queue t = qs[i := \<lparr>err = ERROR_QUEUE_OVERFLOW, arg = n\<rparr>]"
    and "\<forall>q \<in> set qs. err q \<noteq> ERROR_QUEUE_OVERFLOW" and "i < length qs"
  shows "report_error e a t =
           t\<lparr>error_queue := qs[i := \<lparr>err = ERROR_QUEUE_OVERFLOW, arg = int16 (n + 1)\<rparr>]\<rparr>"
  using assms by (simp add: report_error_def count_overflow_one)

lemma report_errors_count:
  assumes "\<forall>q \<in> set qs. err q \<noteq> ERROR_QUEUE_OVERFLOW" and "i < length qs"
  shows "errors_pending t = ERROR_QUEUE_SIZE \<Longrightarrow>
         error_queue t = qs[i := \<lparr>err = ERROR_QUEUE_OVERFLOW, arg = int16 n\<rparr>] \<Longrightarrow>
         report_errors rs t =
           t\<lparr>error_queue :=
               qs[i := \<lparr>err = ERROR_QUEUE_OVERFLOW, arg = int16 (n + int (length rs))\<rparr>]\<rparr>"
proof (induction rs arbitrary: t n)
  case Nil
  then show ?case by simp
next
  case (Cons r rs)
  obtain e a where r: "r = (e, a)" by (cases r)
  let ?t = "t\<lparr>error_queue := qs[i := \<lparr>err = ERROR_QUEUE_OVERFLOW, arg = int16 (n + 1)\<rparr>]\<rparr>"
  have "report_error e a t =
      t\<lparr>error_queue := qs[i := \<lparr>err = ERROR_QUEUE_OVERFLOW, arg = int16 (int16 n + 1)\<rparr>]\<rparr>"
    by (rule report_error_counts[OF Cons.prems(1) Cons.prems(2) assms])
  then have step: "report_error e a t = ?t" by (simp only: int16_add)
  have "report_errors rs ?t =
      ?t\<lparr>error_queue :=
          qs[i := \<lparr>err = ERROR_QUEUE_OVERFLOW, arg = int16 ((n + 1) + int (length rs))\<rparr>]\<rparr>"
    by (rule Cons.IH) (simp_all add: Cons.prems)
  then show ?case by (simp add: r step add.assoc)
qed

lemma byte_below_5: "(i :: byte) < 5 \<Longrightarrow> i = 0 \<or> i = 1 \<or> i = 2 \<or> i = 3 \<or> i = 4"
proof -
  assume "i < 5"
  then have "unat i < 5" by (simp add: word_less_nat_alt)
  then have "unat i = 0 \<or> unat i = 1 \<or> unat i = 2 \<or> unat i = 3 \<or> unat i = 4" by arith
  then have "word_of_nat (unat i) = (0::byte) \<or> word_of_nat (unat i) = (1::byte) \<or>
     word_of_nat (unat i) = (2::byte) \<or> word_of_nat (unat i) = (3::byte) \<or>
     word_of_nat (unat i) = (4::byte)"
    by (elim disjE) simp_all
  then show ?thesis by simp
qed

lemma byte_index_before:
  "(i :: byte) < 5 \<Longrightarrow> unat (if i \<noteq> 0 then i - 1 else 5 - 1) < 5"
  by (drule byte_below_5) auto

text \<open>
  Claim C10.  Let the queue hold \<open>ERROR_QUEUE_SIZE\<close> = 5 pending errors, none of them an
  \<open>ERROR_QUEUE_OVERFLOW\<close> record.  A further \<^verbatim>\<open>report_error( e, a )\<close> followed by any
  series \<open>rs\<close> of later reports (the queue stays full: nothing is flushed in between)
  changes nothing but one record of the queue: the record before \<open>error_in\<close>, cyclically,
  becomes \<open>ERROR_QUEUE_OVERFLOW\<close> with the argument 1 incremented \<open>length rs\<close> times, as a
  16-bit \<^verbatim>\<open>int\<close>: this is \<open>1 + length rs\<close> for up to 32766 later reports, all that the
  counter can count.  The incoming errors are stored nowhere, whatever their codes.  That
  record is the one queued most recently: when the full queue is the result of queuing
  \<open>(e0, a0)\<close> on a queue with room, it is the record that holds \<open>(e0, a0)\<close>, at the index
  \<open>error_in\<close> had before.
\<close>

theorem report_error_queue_full:
  assumes "errors_pending s = ERROR_QUEUE_SIZE" and "error_in s < ERROR_QUEUE_SIZE"
    and "length (error_queue s) = unat ERROR_QUEUE_SIZE"
    and "\<forall>q \<in> set (error_queue s). err q \<noteq> ERROR_QUEUE_OVERFLOW"
  shows "report_errors rs (report_error e a s) =
           s\<lparr>error_queue := (error_queue s)
               [unat (if error_in s \<noteq> 0 then error_in s - 1 else ERROR_QUEUE_SIZE - 1) :=
                  \<lparr>err = ERROR_QUEUE_OVERFLOW, arg = int16 (1 + int (length rs))\<rparr>]\<rparr> \<and>
         (length rs \<le> 32766 \<longrightarrow> int16 (1 + int (length rs)) = 1 + int (length rs)) \<and>
         (\<forall>s0 e0 a0. errors_pending s0 < ERROR_QUEUE_SIZE \<and> error_in s0 < ERROR_QUEUE_SIZE \<and>
              s = report_error e0 a0 s0 \<longrightarrow>
              unat (if error_in s \<noteq> 0 then error_in s - 1 else ERROR_QUEUE_SIZE - 1) =
                unat (error_in s0) \<and>
              error_queue s ! unat (error_in s0) = \<lparr>err = e0, arg = a0\<rparr>)"
proof (intro conjI allI impI)
  let ?i = "unat (if error_in s \<noteq> 0 then error_in s - 1 else ERROR_QUEUE_SIZE - 1)"
  let ?qs = "error_queue s"
  have i: "?i < length ?qs"
    using assms(2,3) byte_index_before[of "error_in s"]
    by (simp add: ERROR_QUEUE_SIZE_def split: if_splits)
  have first: "report_error e a s =
      s\<lparr>error_queue := ?qs[?i := \<lparr>err = ERROR_QUEUE_OVERFLOW, arg = 1\<rparr>]\<rparr>"
    using assms(1,4) by (simp add: report_error_def count_overflow_none Let_def)
  have one: "int16 1 = 1" by (simp add: int16_id)
  have "report_errors rs (report_error e a s) =
      (report_error e a s)\<lparr>error_queue :=
         ?qs[?i := \<lparr>err = ERROR_QUEUE_OVERFLOW, arg = int16 (1 + int (length rs))\<rparr>]\<rparr>"
    by (rule report_errors_count[OF assms(4) i]) (simp_all add: first assms(1) one)
  then show "report_errors rs (report_error e a s) =
      s\<lparr>error_queue :=
          ?qs[?i := \<lparr>err = ERROR_QUEUE_OVERFLOW, arg = int16 (1 + int (length rs))\<rparr>]\<rparr>"
    by (simp add: first)
next
  assume "length rs \<le> 32766"
  then show "int16 (1 + int (length rs)) = 1 + int (length rs)" by (simp add: int16_id)
next
  fix s0 e0 a0
  assume h: "errors_pending s0 < ERROR_QUEUE_SIZE \<and> error_in s0 < ERROR_QUEUE_SIZE \<and>
    s = report_error e0 a0 s0"
  then have s: "s = s0\<lparr>error_queue := (error_queue s0)[unat (error_in s0) := \<lparr>err = e0, arg = a0\<rparr>],
      error_in := (if error_in s0 + 1 = ERROR_QUEUE_SIZE then 0 else error_in s0 + 1),
      errors_pending := errors_pending s0 + 1\<rparr>"
    by (simp add: report_error_def Let_def)
  from h have lt: "unat (error_in s0) < 5"
    by (simp add: ERROR_QUEUE_SIZE_def word_less_nat_alt)
  from h have "error_in s0 < 5" by (simp add: ERROR_QUEUE_SIZE_def)
  then show "unat (if error_in s \<noteq> 0 then error_in s - 1 else ERROR_QUEUE_SIZE - 1) = unat (error_in s0)"
    by (drule_tac byte_below_5) (auto simp: s ERROR_QUEUE_SIZE_def)
  from assms(3) lt show "error_queue s ! unat (error_in s0) = \<lparr>err = e0, arg = a0\<rparr>"
    by (simp add: s ERROR_QUEUE_SIZE_def)
qed

theorem report_error_queue_full_witness:
  "errors_pending (report_errors [(7, 80), (8, 0), (9, 200), (10, 5), (11, 3)] setup_state) =
     ERROR_QUEUE_SIZE \<and>
   error_queue (report_errors [(8, 1), (9, 2)]
       (report_error 7 80
         (report_errors [(7, 80), (8, 0), (9, 200), (10, 5), (11, 3)] setup_state))) =
     [\<lparr>err = 7, arg = 80\<rparr>, \<lparr>err = 8, arg = 0\<rparr>, \<lparr>err = 9, arg = 200\<rparr>,
      \<lparr>err = 10, arg = 5\<rparr>, \<lparr>err = ERROR_QUEUE_OVERFLOW, arg = 3\<rparr>]"
proof -
  let ?s = "report_errors [(7, 80), (8, 0), (9, 200), (10, 5), (11, 3)] setup_state"
  have h1: "errors_pending ?s = ERROR_QUEUE_SIZE" by code_simp
  have h2: "error_in ?s < ERROR_QUEUE_SIZE" by code_simp
  have h3: "length (error_queue ?s) = unat ERROR_QUEUE_SIZE" by code_simp
  have q: "error_queue ?s = [\<lparr>err = 7, arg = 80\<rparr>, \<lparr>err = 8, arg = 0\<rparr>, \<lparr>err = 9, arg = 200\<rparr>,
      \<lparr>err = 10, arg = 5\<rparr>, \<lparr>err = 11, arg = 3\<rparr>]" by code_simp
  have h4: "\<forall>q \<in> set (error_queue ?s). err q \<noteq> ERROR_QUEUE_OVERFLOW"
    by (simp only: q) (simp add: ERROR_QUEUE_OVERFLOW_def)
  have i: "unat (if error_in ?s \<noteq> 0 then error_in ?s - 1 else ERROR_QUEUE_SIZE - 1) = 4"
    by code_simp
  note w = report_error_queue_full[OF h1 h2 h3 h4, of "[(8, 1), (9, 2)]" 7 80]
  have n: "int16 (1 + int (length [(8 :: int, 1 :: int), (9, 2)])) = 3"
    using w[THEN conjunct2, THEN conjunct1] by simp
  from w
  have "report_errors [(8, 1), (9, 2)] (report_error 7 80 ?s) =
      ?s\<lparr>error_queue := (error_queue ?s)
          [unat (if error_in ?s \<noteq> 0 then error_in ?s - 1 else ERROR_QUEUE_SIZE - 1) :=
             \<lparr>err = ERROR_QUEUE_OVERFLOW,
              arg = int16 (1 + int (length [(8 :: int, 1 :: int), (9, 2)]))\<rparr>]\<rparr>"
    by (rule conjunct1)
  then have "error_queue (report_errors [(8, 1), (9, 2)] (report_error 7 80 ?s)) =
      (error_queue ?s)[4 := \<lparr>err = ERROR_QUEUE_OVERFLOW, arg = 3\<rparr>]"
    by (simp only: i n) simp
  then have "error_queue (report_errors [(8, 1), (9, 2)] (report_error 7 80 ?s)) =
      [\<lparr>err = 7, arg = 80\<rparr>, \<lparr>err = 8, arg = 0\<rparr>, \<lparr>err = 9, arg = 200\<rparr>,
       \<lparr>err = 10, arg = 5\<rparr>, \<lparr>err = ERROR_QUEUE_OVERFLOW, arg = 3\<rparr>]"
    by (simp only: q) simp
  with h1 show ?thesis by blast
qed

section \<open>Properties of the function cache\<close>

lemma detach_target_absent:
  "t \<notin> fc_target ` set cache \<Longrightarrow> detach_target t cache = None"
  by (induction cache) auto

lemma function_index:
  assumes "0 \<le> func" and "func \<le> 28"
  shows "unat (drop_bit 3 (to_byte func)) < 4"
proof -
  from assms have "unat (to_byte func) = nat func"
    by (simp add: to_byte_def unat_eq_nat_uint uint_word_of_int)
  with assms show ?thesis by (simp add: drop_bit_eq_div unat_div)
qed

text \<open>
  Claim C9.  For a target that no record of the cache holds (the cache holding at least
  two records, as it always does) and a function number 0..28: the lookup drops the last,
  least recently used record and puts a record for the target with all function bits
  clear at the head; the update for \<^verbatim>\<open>state\<close> off then finds the bit clear already and
  returns \<^verbatim>\<open>false\<close>; and \<^verbatim>\<open>compose_function_change\<close> for \<open>FUNCTION_OFF\<close> writes the two
  bytes \<open>0xFF, 0x00\<close> of the idle packet and leaves the cache with the new record in and
  the old one gone.
\<close>

theorem function_off_unseen_target:
  assumes "adrs \<notin> fc_target ` set cache" and "2 \<le> length cache"
    and "0 \<le> func" and "func \<le> 28"
  shows "find_func_cache adrs cache =
           Some (\<lparr>fc_target = adrs, fc_bits = [0, 0, 0, 0]\<rparr> # butlast cache) \<and>
         update_function adrs (to_byte func) False cache =
           Some (False, \<lparr>fc_target = adrs, fc_bits = [0, 0, 0, 0]\<rparr> # butlast cache) \<and>
         compose_function_change adrs func FUNCTION_OFF cache =
           Some ([0xFF, 0x00], \<lparr>fc_target = adrs, fc_bits = [0, 0, 0, 0]\<rparr> # butlast cache)"
proof -
  have z: "replicate FUNCTION_BIT_ARRAY (0 :: byte) = [0, 0, 0, 0]"
    by (simp add: FUNCTION_BIT_ARRAY_def eval_nat_numeral)
  from assms(1,2) have f: "find_func_cache adrs cache =
      Some (\<lparr>fc_target = adrs, fc_bits = [0, 0, 0, 0]\<rparr> # butlast cache)"
    by (simp add: find_func_cache_def detach_target_absent z)
  from function_index[OF assms(3,4)]
  have i: "unat (drop_bit 3 (to_byte func)) < 4" .
  then have n: "[0, 0, 0, 0 :: byte] ! unat (drop_bit 3 (to_byte func)) = 0"
    using nth_replicate[of "unat (drop_bit 3 (to_byte func))" 4 "0 :: byte"]
    by (simp add: eval_nat_numeral)
  from i n have u: "update_function adrs (to_byte func) False cache =
      Some (False, \<lparr>fc_target = adrs, fc_bits = [0, 0, 0, 0]\<rparr> # butlast cache)"
    by (simp add: update_function_def f Let_def)
  have "compose_function_change adrs func FUNCTION_OFF cache =
      Some ([0xFF, 0x00], \<lparr>fc_target = adrs, fc_bits = [0, 0, 0, 0]\<rparr> # butlast cache)"
    by (simp add: compose_function_change_def u FUNCTION_OFF_def FUNCTION_ON_def)
  with f u show ?thesis by blast
qed

theorem function_off_unseen_target_witness:
  "3 \<notin> fc_target ` set (function_cache setup_state) \<and>
   2 \<le> length (function_cache setup_state) \<and>
   compose_function_change 3 5 FUNCTION_OFF (function_cache setup_state) =
     Some ([0xFF, 0x00], \<lparr>fc_target = 3, fc_bits = [0, 0, 0, 0]\<rparr> #
       replicate 5 \<lparr>fc_target = 0, fc_bits = [0, 0, 0, 0]\<rparr>)"
proof -
  have c: "function_cache setup_state = replicate 6 \<lparr>fc_target = 0, fc_bits = [0, 0, 0, 0]\<rparr>"
    by (simp add: setup_state_def MOBILE_TRANS_BUFFERS_def)
  have h1: "3 \<notin> fc_target ` set (function_cache setup_state)" by (simp add: c)
  have h2: "2 \<le> length (function_cache setup_state)" by (simp add: c)
  have b: "butlast (function_cache setup_state) = replicate 5 \<lparr>fc_target = 0, fc_bits = [0, 0, 0, 0]\<rparr>"
    by (simp add: c eval_nat_numeral butlast_snoc[symmetric] replicate_append_same del: butlast_snoc)
  from function_off_unseen_target[OF h1 h2, of 5] h1 h2 show ?thesis
    by (simp only: b) simp
qed

section \<open>Properties of the power commands\<close>

lemma report_error_keeps:
  "global_power_state (report_error e a s) = global_power_state s"
  "pins (report_error e a s) = pins s"
  "output_pin (report_error e a s) = output_pin s"
  "circular_buffer (report_error e a s) = circular_buffer s"
  "queue_data (report_error e a s) = queue_data s"
  "adc_channel (report_error e a s) = adc_channel s"
  by (simp_all add: report_error_def Let_def split: option.splits)

lemma send_text_keeps:
  "global_power_state (send_text txt a s) = global_power_state s"
  "pins (send_text txt a s) = pins s"
  by (simp_all add: send_text_def report_error_keeps Let_def split: prod.splits)

lemma report_error_room:
  "errors_pending s < ERROR_QUEUE_SIZE \<Longrightarrow> unat (error_in s) < length (error_queue s) \<Longrightarrow>
   error_queue (report_error e a s) ! unat (error_in s) = \<lparr>err = e, arg = a\<rparr>"
  by (simp add: report_error_def Let_def)

text \<open>
  Claim C4.  A \<^verbatim>\<open>P\<close> command asking for the main track (argument 1) or the programming
  track (argument 2) while the global power state is not off does nothing but report
  \<open>POWER_NOT_OFF\<close>: the state after it is the state \<^verbatim>\<open>report_error\<close> gives, so the power
  state, every pin (the two enable outputs among them), the selected output pin, the
  links of the buffers, the analogue input and the output queue are as before, and with
  room in the error queue the record \<open>(POWER_NOT_OFF, 'P')\<close> is queued.  No \<^verbatim>\<open>P\<close>
  command, whatever its arguments, takes the power state from main to programming or
  from programming to main.
\<close>

theorem power_on_needs_off:
  assumes "global_power_state s \<noteq> GLOBAL_POWER_OFF" and "a = 1 \<or> a = 2"
  shows "scan_line_P [a] s = report_error POWER_NOT_OFF (char_code CHR ''P'') s \<and>
         global_power_state (scan_line_P [a] s) = global_power_state s \<and>
         pins (scan_line_P [a] s) = pins s \<and>
         output_pin (scan_line_P [a] s) = output_pin s \<and>
         circular_buffer (scan_line_P [a] s) = circular_buffer s \<and>
         adc_channel (scan_line_P [a] s) = adc_channel s \<and>
         queue_data (scan_line_P [a] s) = queue_data s \<and>
         (errors_pending s < ERROR_QUEUE_SIZE \<and> unat (error_in s) < length (error_queue s) \<longrightarrow>
            error_queue (scan_line_P [a] s) ! unat (error_in s) =
              \<lparr>err = POWER_NOT_OFF, arg = char_code CHR ''P''\<rparr>) \<and>
         (\<forall>args. (global_power_state s = GLOBAL_POWER_MAIN \<longrightarrow>
                    global_power_state (scan_line_P args s) \<noteq> GLOBAL_POWER_PROG) \<and>
                 (global_power_state s = GLOBAL_POWER_PROG \<longrightarrow>
                    global_power_state (scan_line_P args s) \<noteq> GLOBAL_POWER_MAIN))"
proof -
  from assms have r: "scan_line_P [a] s = report_error POWER_NOT_OFF (char_code CHR ''P'') s"
    by (auto simp: scan_line_P_def)
  have t: "global_power_state (scan_line_P args s) = global_power_state s \<or>
           global_power_state (scan_line_P args s) = GLOBAL_POWER_OFF" for args
    using assms(1)
    by (simp add: scan_line_P_def report_error_keeps send_text_keeps power_off_tracks_def)
  have "(global_power_state s = GLOBAL_POWER_MAIN \<longrightarrow>
            global_power_state (scan_line_P args s) \<noteq> GLOBAL_POWER_PROG) \<and>
        (global_power_state s = GLOBAL_POWER_PROG \<longrightarrow>
            global_power_state (scan_line_P args s) \<noteq> GLOBAL_POWER_MAIN)" for args
    using t[of args] by auto
  then show ?thesis
    by (simp add: r report_error_keeps report_error_room)
qed

theorem power_on_needs_off_witness:
  "global_power_state (scan_line_P [1] setup_state) = GLOBAL_POWER_MAIN \<and>
   global_power_state (scan_line_P [2] (scan_line_P [1] setup_state)) = GLOBAL_POWER_MAIN \<and>
   error_queue (scan_line_P [2] (scan_line_P [1] setup_state)) ! 0 =
     \<lparr>err = POWER_NOT_OFF, arg = char_code CHR ''P''\<rparr>"
proof -
  let ?s = "scan_line_P [1] setup_state"
  have g: "global_power_state ?s = GLOBAL_POWER_MAIN" by code_simp
  then have h1: "global_power_state ?s \<noteq> GLOBAL_POWER_OFF" by simp
  have h2: "(2 :: int) = 1 \<or> (2 :: int) = 2" by simp
  have h3: "errors_pending ?s < ERROR_QUEUE_SIZE \<and> unat (error_in ?s) < length (error_queue ?s)"
    by code_simp
  have i: "unat (error_in ?s) = 0" by code_simp
  from power_on_needs_off[OF h1 h2] h3
  have "global_power_state (scan_line_P [2] ?s) = global_power_state ?s" and
    "error_queue (scan_line_P [2] ?s) ! unat (error_in ?s) =
       \<lparr>err = POWER_NOT_OFF, arg = char_code CHR ''P''\<rparr>"
    by blast+
  with g show ?thesis by (simp only: i)
qed

section \<open>Properties of the signal generator\<close>



section \<open>Properties of the buffer manager\<close>

subsection \<open>Failures of \<^verbatim>\<open>pack_command\<close>\<close>










subsection \<open>The manager on a failed encoding\<close>

lemma release_all: "release_pending_recs ps False free = ([], rev ps @ free)"
  by (induction ps arbitrary: free) simp_all




section \<open>Properties of the programming commands\<close>

lemma digits_no_hash: "HASH \<notin> set (digits_of n)"
proof (induction n rule: digits_of.induct)
  case (1 n)
  show ?case
  proof (cases "n = 0")
    case True
    then show ?thesis by (simp add: digits_of.simps[of 0])
  next
    case False
    have "n mod 10 < length ''0123456789''" by simp
    then have "''0123456789'' ! (n mod 10) \<in> set ''0123456789''" by (rule nth_mem)
    then have "''0123456789'' ! (n mod 10) \<noteq> HASH" by (auto simp: HASH_def)
    with 1 False show ?thesis by (simp add: digits_of.simps[of n])
  qed
qed

lemma int_to_text_no_hash: "HASH \<notin> set (int_to_text v)"
  by (simp add: int_to_text_def digits_no_hash) (simp add: HASH_def)

lemma put_at_hash_append:
  "HASH \<notin> set xs \<Longrightarrow> put_at_hash c (xs @ HASH # ys) = Some (xs @ c # ys)"
  by (induction xs) auto

lemma put_at_hash_reply_2c:
  "put_at_hash c (reply_2c CHR ''S'' a b) =
     Some ([CHR ''['', CHR ''S''] @ int_to_text a @ '' '' @ int_to_text b @ '' '' @ [c] @ [CHR '']'', NL])"
proof -
  have "HASH \<notin> set ([CHR ''['', CHR ''S''] @ int_to_text a @ '' '' @ int_to_text b @ '' '')"
    by (simp add: int_to_text_no_hash) (simp add: HASH_def)
  from put_at_hash_append[OF this, of c "[CHR '']'', NL]"] show ?thesis
    by (simp add: reply_2c_def)
qed

lemma length_put_at_hash: "put_at_hash c xs = Some ys \<Longrightarrow> length ys = length xs"
  by (induction xs arbitrary: ys) (auto split: if_splits)

lemma queue_output_room:
  "length q + length msg \<le> OUTPUT_QUEUE_SIZE \<Longrightarrow> queue_output msg q = (True, q @ msg)"
  by (induction msg arbitrary: q) auto

lemma find_single_buffer:
  "target (bufs ! b) = t \<Longrightarrow> find_available_buffer b (Suc 0) t bufs = Some b"
  by (simp add: find_available_buffer_def)

lemma release_buffer_all:
  "release_buffer i False s =
     s\<lparr>free_pending_packets := rev (pending (circular_buffer s ! i)) @ free_pending_packets s,
       circular_buffer := (circular_buffer s)[i := (circular_buffer s ! i)\<lparr>pending := []\<rparr>]\<rparr>"
  by (simp add: release_buffer_def release_all Let_def)

lemma create_pending_rec_some:
  "free_pending_packets s = p # fr \<Longrightarrow>
   create_pending_rec i t d lp cmd s =
     (True, s\<lparr>free_pending_packets := fr,
              circular_buffer := (circular_buffer s)
                [i := (circular_buffer s ! i)
                   \<lparr>pending := pending (circular_buffer s ! i) @
                      [\<lparr>pp_target = t, pp_lpreamble = lp, pp_duration = d,
                        pp_len = snd (copy_with_parity cmd),
                        pp_command = fst (copy_with_parity cmd)\<rparr>]\<rparr>]\<rparr>)"
  by (simp add: create_pending_rec_def Let_def)

lemma length_compose_set_cv: "length (compose_set_cv cv val) = 3"
  by (simp add: compose_set_cv_def)

lemma three_on_the_list:
  "3 \<le> length xs \<Longrightarrow> \<exists>p1 p2 p3 fr. xs = p1 # p2 # p3 # fr"
  by (cases xs; cases "tl xs"; cases "tl (tl xs)") auto

text \<open>The drain of a buffer that waits for a confirmation with the reply of a CV write.\<close>

lemma drain_cv_write_reply:
  assumes "manage t < length (circular_buffer t)"
    and "state (circular_buffer t ! manage t) = TBS_LOAD"
    and "pending (circular_buffer t ! manage t) = []"
    and "reply (circular_buffer t ! manage t) = REPLY_ON_CONFIRM"
    and "contains (circular_buffer t ! manage t) = reply_2c CHR ''S'' cv val"
    and "length (queue_data t) + length (reply_2c CHR ''S'' cv val) \<le> OUTPUT_QUEUE_SIZE"
  shows "queue_data (management_service_routine t) =
           queue_data t @ [CHR ''['', CHR ''S''] @ int_to_text cv @ '' '' @ int_to_text val @ '' '' @
             [if load_confirmed t then CHR ''1'' else CHR ''0''] @ [CHR '']'', NL] \<and>
         state (circular_buffer (management_service_routine t) ! manage t) = TBS_EMPTY \<and>
         reply (circular_buffer (management_service_routine t) ! manage t) = NO_REPLY_REQUIRED"
proof -
  let ?c = "if load_confirmed t then CHR ''1'' else CHR ''0''"
  let ?msg = "[CHR ''['', CHR ''S''] @ int_to_text cv @ '' '' @ int_to_text val @ '' '' @
      [?c] @ [CHR '']'', NL]"
  have p: "put_at_hash ?c (reply_2c CHR ''S'' cv val) = Some ?msg"
    by (rule put_at_hash_reply_2c)
  from length_put_at_hash[OF p] assms(6)
  have "length (queue_data t) + length ?msg \<le> OUTPUT_QUEUE_SIZE" by simp
  then have q: "queue_output ?msg (queue_data t) = (True, queue_data t @ ?msg)"
    by (rule queue_output_room)
  have d: "drain_buffer (manage t) t =
      t\<lparr>circular_buffer := (circular_buffer t)
          [manage t := (circular_buffer t ! manage t)
             \<lparr>contains := ?msg, reply := NO_REPLY_REQUIRED, state := TBS_EMPTY\<rparr>],
        queue_data := queue_data t @ ?msg\<rparr>"
    using assms(1,4,5) p q by (simp add: drain_buffer_def Let_def send_text_def)
  from assms(1,2,3) show ?thesis
    by (simp add: management_service_routine_def Let_def d)
qed

text \<open>
  Claim C2, as amended.  For a command \<^verbatim>\<open>S\<close> with a CV number in 1..1024 and a value in
  0..255, the programming buffer carrying target 0 as it always does and three pending
  records being free once the buffer's old list is released: the buffer's pending list
  becomes exactly three packets, all with the long preamble (30 ones in this sketch): a
  digital reset \<open>[0, 0]\<close> and parity with 20 repeats, the CV write (for CV 1 and value
  42 the bytes \<open>[0x7C, 0x00, 0x2A]\<close> and the parity \<open>0x56\<close>) with 10 repeats, and a closing
  reset with 20 repeats.  There is no second copy of the write.  The reply mode is
  \<open>REPLY_ON_CONFIRM\<close>, the reply text is \<open>[S<cv> <value> #]\<close> and the confirmation flag
  is cleared.  When later the manager finds a buffer in \<open>TBS_LOAD\<close> with that reply and no
  pending packet (and room in the output queue), it sends the text with the \<open>#\<close> replaced
  by \<open>1\<close> if a confirmation was seen and \<open>0\<close> if not, and empties the buffer.
\<close>

theorem cv_write_submission:
  assumes "1 \<le> cv" and "cv \<le> 1024" and "0 \<le> val" and "val \<le> 255"
    and "PROGRAMMING_BASE_BUFFER < length (circular_buffer s)"
    and "target (circular_buffer s ! PROGRAMMING_BASE_BUFFER) = 0"
    and "3 \<le> length (pending (circular_buffer s ! PROGRAMMING_BASE_BUFFER)) +
           length (free_pending_packets s)"
  shows "pending (circular_buffer (scan_line_S [cv, val] s) ! PROGRAMMING_BASE_BUFFER) =
           [\<lparr>pp_target = 0, pp_lpreamble = True, pp_duration = SERVICE_MODE_RESET_REPEATS,
             pp_len = 3, pp_command = [0, 0, 0]\<rparr>,
            \<lparr>pp_target = 0, pp_lpreamble = True, pp_duration = SERVICE_MODE_COMMAND_REPEATS,
             pp_len = 4,
             pp_command = compose_set_cv cv val @ [foldl (XOR) 0 (compose_set_cv cv val)]\<rparr>,
            \<lparr>pp_target = 0, pp_lpreamble = True, pp_duration = SERVICE_MODE_RESET_REPEATS,
             pp_len = 3, pp_command = [0, 0, 0]\<rparr>] \<and>
         reply (circular_buffer (scan_line_S [cv, val] s) ! PROGRAMMING_BASE_BUFFER) =
           REPLY_ON_CONFIRM \<and>
         contains (circular_buffer (scan_line_S [cv, val] s) ! PROGRAMMING_BASE_BUFFER) =
           reply_2c CHR ''S'' cv val \<and>
         state (circular_buffer (scan_line_S [cv, val] s) ! PROGRAMMING_BASE_BUFFER) =
           (if state (circular_buffer s ! PROGRAMMING_BASE_BUFFER) = TBS_EMPTY
            then TBS_LOAD else TBS_RELOAD) \<and>
         \<not> load_confirmed (scan_line_S [cv, val] s) \<and>
         compose_set_cv 1 42 = [0x7C, 0x00, 0x2A] \<and> foldl (XOR) 0 (compose_set_cv 1 42) = 0x56 \<and>
         pack_command [0, 0, 0] True = ([], True, [DCC_LONG_PREAMBLE, 27, 1, 0]) \<and>
         DCC_LONG_PREAMBLE = 30 \<and>
         (\<forall>t. manage t < length (circular_buffer t) \<and>
              state (circular_buffer t ! manage t) = TBS_LOAD \<and>
              pending (circular_buffer t ! manage t) = [] \<and>
              reply (circular_buffer t ! manage t) = REPLY_ON_CONFIRM \<and>
              contains (circular_buffer t ! manage t) = reply_2c CHR ''S'' cv val \<and>
              length (queue_data t) + length (reply_2c CHR ''S'' cv val) \<le> OUTPUT_QUEUE_SIZE \<longrightarrow>
              queue_data (management_service_routine t) =
                queue_data t @ [CHR ''['', CHR ''S''] @ int_to_text cv @ '' '' @ int_to_text val @
                  '' '' @ [if load_confirmed t then CHR ''1'' else CHR ''0''] @ [CHR '']'', NL] \<and>
              state (circular_buffer (management_service_routine t) ! manage t) = TBS_EMPTY)"
proof -
  let ?i = PROGRAMMING_BASE_BUFFER
  let ?b = "circular_buffer s ! ?i"
  let ?rst = "\<lparr>pp_target = 0, pp_lpreamble = True, pp_duration = SERVICE_MODE_RESET_REPEATS,
             pp_len = 3, pp_command = [0, 0, 0 :: byte]\<rparr>"
  let ?cvpkt = "\<lparr>pp_target = 0, pp_lpreamble = True, pp_duration = SERVICE_MODE_COMMAND_REPEATS,
             pp_len = 4,
             pp_command = compose_set_cv cv val @ [foldl (XOR) 0 (compose_set_cv cv val)]\<rparr>"
  from assms(7) three_on_the_list[of "rev (pending ?b) @ free_pending_packets s"]
  obtain p1 p2 p3 fr where fr: "rev (pending ?b) @ free_pending_packets s = p1 # p2 # p3 # fr"
    by auto
  define s0 where "s0 = release_buffer ?i False s"
  have s0: "free_pending_packets s0 = p1 # p2 # p3 # fr"
    "circular_buffer s0 = (circular_buffer s)[?i := ?b\<lparr>pending := []\<rparr>]"
    "load_confirmed s0 = load_confirmed s"
    by (simp_all add: s0_def release_buffer_all fr)
  define s1 where "s1 = s0\<lparr>free_pending_packets := p2 # p3 # fr,
      circular_buffer := (circular_buffer s)[?i := ?b\<lparr>pending := [?rst]\<rparr>]\<rparr>"
  have c1: "create_pending_rec ?i 0 SERVICE_MODE_RESET_REPEATS True compose_digital_reset s0 =
      (True, s1)"
    using assms(5)
    by (simp add: create_pending_rec_some[OF s0(1)] s0(2) s1_def copy_with_parity_def
        compose_digital_reset_def)
  define s2 where "s2 = s0\<lparr>free_pending_packets := p3 # fr,
      circular_buffer := (circular_buffer s)[?i := ?b\<lparr>pending := [?rst, ?cvpkt]\<rparr>]\<rparr>"
  have f1: "free_pending_packets s1 = p2 # p3 # fr" by (simp add: s1_def)
  have c2: "create_pending_rec ?i 0 SERVICE_MODE_COMMAND_REPEATS True (compose_set_cv cv val) s1 =
      (True, s2)"
    using assms(5)
    by (simp only: create_pending_rec_some[OF f1])
       (simp add: s1_def s2_def copy_with_parity_def length_compose_set_cv)
  define s3 where "s3 = s0\<lparr>free_pending_packets := fr,
      circular_buffer := (circular_buffer s)[?i := ?b\<lparr>pending := [?rst, ?cvpkt, ?rst]\<rparr>]\<rparr>"
  have f2: "free_pending_packets s2 = p3 # fr" by (simp add: s2_def)
  have c3: "create_pending_rec ?i 0 SERVICE_MODE_RESET_REPEATS True compose_digital_reset s2 =
      (True, s3)"
    using assms(5)
    by (simp only: create_pending_rec_some[OF f2])
       (simp add: s2_def s3_def copy_with_parity_def compose_digital_reset_def)
  have r: "scan_line_S [cv, val] s =
      arm_buffer ?i (reply_2c CHR ''S'' cv val) REPLY_ON_CONFIRM (s3\<lparr>load_confirmed := False\<rparr>)"
    using assms(1-4,6)
    by (simp add: scan_line_S_def MINIMUM_CV_ADDRESS_def MAXIMUM_CV_ADDRESS_def
        PROGRAMMING_BUFFERS_def find_single_buffer s0_def[symmetric] c1 c2 c3)
  have b3: "circular_buffer (s3\<lparr>load_confirmed := False\<rparr>) ! ?i =
      ?b\<lparr>pending := [?rst, ?cvpkt, ?rst]\<rparr>"
    using assms(5) by (simp add: s3_def)
  have part1: "pending (circular_buffer (scan_line_S [cv, val] s) ! ?i) = [?rst, ?cvpkt, ?rst]"
    and part2: "reply (circular_buffer (scan_line_S [cv, val] s) ! ?i) = REPLY_ON_CONFIRM"
    and part3: "contains (circular_buffer (scan_line_S [cv, val] s) ! ?i) = reply_2c CHR ''S'' cv val"
    and part4: "state (circular_buffer (scan_line_S [cv, val] s) ! ?i) =
      (if state ?b = TBS_EMPTY then TBS_LOAD else TBS_RELOAD)"
    and part5: "\<not> load_confirmed (scan_line_S [cv, val] s)"
    using assms(5) by (simp_all add: r arm_buffer_def Let_def b3) (simp_all add: s3_def)
  have k1: "compose_set_cv 1 42 = [0x7C, 0x00, 0x2A]" by code_simp
  have k2: "foldl (XOR) 0 (compose_set_cv 1 42) = 0x56" by code_simp
  have k3: "pack_command [0, 0, 0] True = ([], True, [DCC_LONG_PREAMBLE, 27, 1, 0])" by code_simp
  have k4: "DCC_LONG_PREAMBLE = 30" by (simp add: DCC_LONG_PREAMBLE_def)
  have part6: "\<forall>t. manage t < length (circular_buffer t) \<and>
              state (circular_buffer t ! manage t) = TBS_LOAD \<and>
              pending (circular_buffer t ! manage t) = [] \<and>
              reply (circular_buffer t ! manage t) = REPLY_ON_CONFIRM \<and>
              contains (circular_buffer t ! manage t) = reply_2c CHR ''S'' cv val \<and>
              length (queue_data t) + length (reply_2c CHR ''S'' cv val) \<le> OUTPUT_QUEUE_SIZE \<longrightarrow>
              queue_data (management_service_routine t) =
                queue_data t @ [CHR ''['', CHR ''S''] @ int_to_text cv @ '' '' @ int_to_text val @
                  '' '' @ [if load_confirmed t then CHR ''1'' else CHR ''0''] @ [CHR '']'', NL] \<and>
              state (circular_buffer (management_service_routine t) ! manage t) = TBS_EMPTY"
    using drain_cv_write_reply[of _ cv val] by blast
  from part1 part2 part3 part4 part5 k1 k2 k3 k4 part6 show ?thesis by blast
qed

theorem cv_write_submission_witness:
  "pending (circular_buffer (scan_line_S [1, 42] setup_state) ! PROGRAMMING_BASE_BUFFER) =
     [\<lparr>pp_target = 0, pp_lpreamble = True, pp_duration = 20, pp_len = 3,
       pp_command = [0, 0, 0]\<rparr>,
      \<lparr>pp_target = 0, pp_lpreamble = True, pp_duration = 10, pp_len = 4,
       pp_command = [0x7C, 0x00, 0x2A, 0x56]\<rparr>,
      \<lparr>pp_target = 0, pp_lpreamble = True, pp_duration = 20, pp_len = 3,
       pp_command = [0, 0, 0]\<rparr>] \<and>
   reply (circular_buffer (scan_line_S [1, 42] setup_state) ! PROGRAMMING_BASE_BUFFER) =
     REPLY_ON_CONFIRM \<and>
   queue_data (management_service_routine confirming_state) = ''[S1 42 1]'' @ [NL] \<and>
   state (circular_buffer (management_service_routine confirming_state) !
     PROGRAMMING_BASE_BUFFER) = TBS_EMPTY"
proof -
  have h: "(1::int) \<le> 1" "(1::int) \<le> 1024" "(0::int) \<le> 42" "(42::int) \<le> 255"
    by simp_all
  have h5: "PROGRAMMING_BASE_BUFFER < length (circular_buffer setup_state)" by code_simp
  have h6: "target (circular_buffer setup_state ! PROGRAMMING_BASE_BUFFER) = 0" by code_simp
  have h7: "3 \<le> length (pending (circular_buffer setup_state ! PROGRAMMING_BASE_BUFFER)) +
      length (free_pending_packets setup_state)" by code_simp
  note w = cv_write_submission[OF h h5 h6 h7]
  have e1: "SERVICE_MODE_RESET_REPEATS = 20" "SERVICE_MODE_COMMAND_REPEATS = 10"
    by (simp_all add: SERVICE_MODE_RESET_REPEATS_def SERVICE_MODE_COMMAND_REPEATS_def)
  have e2: "compose_set_cv 1 42 @ [foldl (XOR) 0 (compose_set_cv 1 42)] = [0x7C, 0x00, 0x2A, 0x56]"
    by code_simp
  have a: "pending (circular_buffer (scan_line_S [1, 42] setup_state) ! PROGRAMMING_BASE_BUFFER) =
     [\<lparr>pp_target = 0, pp_lpreamble = True, pp_duration = 20, pp_len = 3,
       pp_command = [0, 0, 0]\<rparr>,
      \<lparr>pp_target = 0, pp_lpreamble = True, pp_duration = 10, pp_len = 4,
       pp_command = [0x7C, 0x00, 0x2A, 0x56]\<rparr>,
      \<lparr>pp_target = 0, pp_lpreamble = True, pp_duration = 20, pp_len = 3,
       pp_command = [0, 0, 0]\<rparr>]"
    using w[THEN conjunct1] by (simp only: e1 e2)
  have b: "reply (circular_buffer (scan_line_S [1, 42] setup_state) ! PROGRAMMING_BASE_BUFFER) =
     REPLY_ON_CONFIRM"
    by (rule w[THEN conjunct2, THEN conjunct1])
  have m: "manage confirming_state = PROGRAMMING_BASE_BUFFER" by code_simp
  have p: "manage confirming_state < length (circular_buffer confirming_state) \<and>
      state (circular_buffer confirming_state ! manage confirming_state) = TBS_LOAD \<and>
      pending (circular_buffer confirming_state ! manage confirming_state) = [] \<and>
      reply (circular_buffer confirming_state ! manage confirming_state) = REPLY_ON_CONFIRM \<and>
      contains (circular_buffer confirming_state ! manage confirming_state) =
        reply_2c CHR ''S'' 1 42 \<and>
      length (queue_data confirming_state) + length (reply_2c CHR ''S'' 1 42) \<le> OUTPUT_QUEUE_SIZE"
    by (intro conjI; code_simp)
  note d = w[THEN conjunct2, THEN conjunct2, THEN conjunct2, THEN conjunct2, THEN conjunct2,
      THEN conjunct2, THEN conjunct2, THEN conjunct2, THEN conjunct2, rule_format, OF p]
  have e3: "queue_data confirming_state @ [CHR ''['', CHR ''S''] @ int_to_text 1 @ '' '' @
      int_to_text 42 @ '' '' @ [if load_confirmed confirming_state then CHR ''1'' else CHR ''0''] @
      [CHR '']'', NL] = ''[S1 42 1]'' @ [NL]"
    by code_simp
  have c: "queue_data (management_service_routine confirming_state) = ''[S1 42 1]'' @ [NL]"
    using d[THEN conjunct1] by (simp only: e3)
  have e: "state (circular_buffer (management_service_routine confirming_state) !
     PROGRAMMING_BASE_BUFFER) = TBS_EMPTY"
    using d[THEN conjunct2] by (simp only: m)
  from a b c e show ?thesis by (intro conjI)
qed

text \<open>
  Claim C2 as it was written does not hold of this sketch: the command \<^verbatim>\<open>S 1 42\<close> given
  after the start leaves three packets and not four on the programming buffer, with one
  copy of the CV write, and a long preamble is a run of 30 ones.
\<close>

theorem cv_write_three_packets:
  "length (pending (circular_buffer (scan_line_S [1, 42] setup_state) !
      PROGRAMMING_BASE_BUFFER)) = 3 \<and>
   map pp_command (pending (circular_buffer (scan_line_S [1, 42] setup_state) !
      PROGRAMMING_BASE_BUFFER)) = [[0, 0, 0], [0x7C, 0x00, 0x2A, 0x56], [0, 0, 0]] \<and>
   map pp_duration (pending (circular_buffer (scan_line_S [1, 42] setup_state) !
      PROGRAMMING_BASE_BUFFER)) = [20, 10, 20] \<and>
   hd (snd (snd (pack_command [0, 0, 0] True))) = 30"
  by (intro conjI; code_simp)

section \<open>Properties of the speed and direction packet\<close>

lemma low_seven_bits:
  fixes y :: int
  assumes "0 \<le> y" and "y < 128"
  shows "128 OR y = 128 + y"
proof -
  from assms have t: "take_bit 7 y = y" by (simp add: take_bit_int_eq_self)
  have "\<not> bit (take_bit 7 y) 7" by (simp add: bit_take_bit_iff)
  with t have "\<not> bit y 7" by simp
  then have "y AND 2 ^ 7 = 0" using and_exp_eq_0_iff_not_bit[of y 7] by blast
  then have "128 AND y = 0" by (simp add: and.commute)
  then show ?thesis by (simp add: disjunctive_add_eq_or)
qed

lemma speed_byte_value:
  fixes dir v :: int
  assumes "dir = 0 \<or> dir = 1" and "0 \<le> v" and "v < 128"
  shows "push_bit 7 dir OR v = 128 * dir + v"
  using assms low_seven_bits[of v] by auto

lemma unat_to_byte: "0 \<le> v \<Longrightarrow> v < 256 \<Longrightarrow> unat (to_byte v) = nat v"
  by (simp add: to_byte_def unsigned_of_int take_bit_int_eq_self)

text \<open>
  Claim C5, as amended.  The command \<^verbatim>\<open>M 3 10 1\<close> composes the bytes \<open>[0x03, 0x3F, 0x8B]\<close>,
  the parity byte added is \<open>0xB7\<close>, the packet is queued with the short preamble of 15
  ones, and its cells are \<open>[15, 7, 2, 3, 6, 1, 1, 3, 1, 1, 2, 1, 1, 1, 2, 1, 4]\<close> and the
  closing zero: the second cell is 7, the start bit of the first byte and the six leading
  zeros of \<open>0x03\<close> being one run.  In general, for a direction of 0 or 1 and a speed that is
  the emergency stop (-1) or in 0..126, the packet is the address bytes, \<open>0x3F\<close> and one
  byte whose top bit is the direction and whose low seven bits are 0 for speed 0, 1 for
  the emergency stop and \<open>speed + 1\<close> otherwise, a value in 2..127.
\<close>

theorem motion_packet_encoding:
  assumes "dir = DCC_FORWARDS \<or> dir = DCC_BACKWARDS"
    and "speed = EMERGENCY_STOP \<or> (MINIMUM_DCC_SPEED \<le> speed \<and> speed \<le> MAXIMUM_DCC_SPEED)"
  shows "compose_motion_packet 3 10 1 = [0x03, 0x3F, 0x8B] \<and>
         copy_with_parity [0x03, 0x3F, 0x8B] = ([0x03, 0x3F, 0x8B, 0xB7], 4) \<and>
         pending (circular_buffer (scan_line_M [3, 10, 1] setup_state) ! MOBILE_BASE_BUFFER) =
           [\<lparr>pp_target = 3, pp_lpreamble = False, pp_duration = 0, pp_len = 4,
             pp_command = [0x03, 0x3F, 0x8B, 0xB7]\<rparr>] \<and>
         pack_command [0x03, 0x3F, 0x8B, 0xB7] False =
           ([], True, [DCC_SHORT_PREAMBLE, 7, 2, 3, 6, 1, 1, 3, 1, 1, 2, 1, 1, 1, 2, 1, 4, 0]) \<and>
         DCC_SHORT_PREAMBLE = 15 \<and>
         butlast (compose_motion_packet adrs speed dir) = address_bytes adrs @ [0x3F] \<and>
         unat (last (compose_motion_packet adrs speed dir)) div 128 = nat dir \<and>
         unat (last (compose_motion_packet adrs speed dir)) mod 128 =
           (if speed = 0 then 0 else if speed = EMERGENCY_STOP then 1 else nat speed + 1) \<and>
         (0 < speed \<longrightarrow> 2 \<le> unat (last (compose_motion_packet adrs speed dir)) mod 128 \<and>
                        unat (last (compose_motion_packet adrs speed dir)) mod 128 \<le> 127)"
proof -
  define v where "v = (if speed = 0 then 0 else if speed = EMERGENCY_STOP then 1 else speed + 1)"
  from assms(2) have v: "0 \<le> v" "v < 128"
    by (auto simp: v_def EMERGENCY_STOP_def MINIMUM_DCC_SPEED_def MAXIMUM_DCC_SPEED_def)
  from assms(1) have d: "dir = 0 \<or> dir = 1"
    by (auto simp: DCC_FORWARDS_def DCC_BACKWARDS_def)
  have l: "last (compose_motion_packet adrs speed dir) = to_byte (push_bit 7 dir OR v)"
    by (simp add: compose_motion_packet_def v_def)
  from d v have r: "0 \<le> 128 * dir + v" "128 * dir + v < 256" by auto
  have u: "unat (last (compose_motion_packet adrs speed dir)) = nat (128 * dir + v)"
    by (simp only: l speed_byte_value[OF d v] unat_to_byte[OF r])
  from v have n: "nat (128 + v) = 128 + nat v" "nat v < 128" by linarith+
  from d v n have g1: "nat (128 * dir + v) div 128 = nat dir" by auto
  from d v n have g2: "nat (128 * dir + v) mod 128 = nat v" by auto
  have k1: "compose_motion_packet 3 10 1 = [0x03, 0x3F, 0x8B]" by code_simp
  have k2: "copy_with_parity [0x03, 0x3F, 0x8B] = ([0x03, 0x3F, 0x8B, 0xB7], 4)" by code_simp
  have k3: "pending (circular_buffer (scan_line_M [3, 10, 1] setup_state) ! MOBILE_BASE_BUFFER) =
           [\<lparr>pp_target = 3, pp_lpreamble = False, pp_duration = 0, pp_len = 4,
             pp_command = [0x03, 0x3F, 0x8B, 0xB7]\<rparr>]" by code_simp
  have k4: "pack_command [0x03, 0x3F, 0x8B, 0xB7] False =
           ([], True, [DCC_SHORT_PREAMBLE, 7, 2, 3, 6, 1, 1, 3, 1, 1, 2, 1, 1, 1, 2, 1, 4, 0])"
    by code_simp
  have k5: "DCC_SHORT_PREAMBLE = 15" by (simp add: DCC_SHORT_PREAMBLE_def)
  have p1: "butlast (compose_motion_packet adrs speed dir) = address_bytes adrs @ [0x3F]"
    by (simp add: compose_motion_packet_def butlast_append)
  have p2: "unat (last (compose_motion_packet adrs speed dir)) div 128 = nat dir"
    by (simp only: u g1)
  have p3: "unat (last (compose_motion_packet adrs speed dir)) mod 128 =
           (if speed = 0 then 0 else if speed = EMERGENCY_STOP then 1 else nat speed + 1)"
    using assms(2) by (simp only: u g2) (auto simp: v_def EMERGENCY_STOP_def MINIMUM_DCC_SPEED_def)
  have p4: "0 < speed \<longrightarrow> 2 \<le> unat (last (compose_motion_packet adrs speed dir)) mod 128 \<and>
                        unat (last (compose_motion_packet adrs speed dir)) mod 128 \<le> 127"
    using assms(2) by (simp only: u g2) (auto simp: v_def EMERGENCY_STOP_def MAXIMUM_DCC_SPEED_def)
  from k1 k2 k3 k4 k5 p1 p2 p3 p4 show ?thesis by (intro conjI)
qed

theorem motion_packet_encoding_witness:
  "butlast (compose_motion_packet 3 10 1) = [0x03, 0x3F] \<and>
   unat (last (compose_motion_packet 3 10 1)) div 128 = 1 \<and>
   unat (last (compose_motion_packet 3 10 1)) mod 128 = 11 \<and>
   unat (last (compose_motion_packet 2000 (- 1) 0)) mod 128 = 1 \<and>
   unat (last (compose_motion_packet 2000 (- 1) 0)) div 128 = 0 \<and>
   butlast (compose_motion_packet 2000 (- 1) 0) = [0xC7, 0xD0, 0x3F]"
proof -
  have h1: "(1::int) = DCC_FORWARDS \<or> (1::int) = DCC_BACKWARDS" by (simp add: DCC_FORWARDS_def)
  have h2: "(10::int) = EMERGENCY_STOP \<or> (MINIMUM_DCC_SPEED \<le> 10 \<and> 10 \<le> MAXIMUM_DCC_SPEED)"
    by (simp add: MINIMUM_DCC_SPEED_def MAXIMUM_DCC_SPEED_def)
  note w = motion_packet_encoding[OF h1 h2, of 3, THEN conjunct2, THEN conjunct2, THEN conjunct2,
      THEN conjunct2, THEN conjunct2]
  have a3: "address_bytes 3 @ [0x3F] = [0x03, 0x3F]" by code_simp
  have a: "butlast (compose_motion_packet 3 10 1) = [0x03, 0x3F]"
    using w[THEN conjunct1] by (simp only: a3)
  have b: "unat (last (compose_motion_packet 3 10 1)) div 128 = 1"
    using w[THEN conjunct2, THEN conjunct1] by simp
  have c: "unat (last (compose_motion_packet 3 10 1)) mod 128 = 11"
    using w[THEN conjunct2, THEN conjunct2, THEN conjunct1] by (simp add: EMERGENCY_STOP_def)
  have h3: "(0::int) = DCC_FORWARDS \<or> (0::int) = DCC_BACKWARDS" by (simp add: DCC_BACKWARDS_def)
  have h4: "(- 1::int) = EMERGENCY_STOP \<or>
      (MINIMUM_DCC_SPEED \<le> - 1 \<and> - 1 \<le> MAXIMUM_DCC_SPEED)"
    by (simp add: EMERGENCY_STOP_def)
  note x = motion_packet_encoding[OF h3 h4, of 2000, THEN conjunct2, THEN conjunct2,
      THEN conjunct2, THEN conjunct2, THEN conjunct2]
  have a2: "address_bytes 2000 @ [0x3F] = [0xC7, 0xD0, 0x3F]" by code_simp
  have d: "unat (last (compose_motion_packet 2000 (- 1) 0)) mod 128 = 1"
    using x[THEN conjunct2, THEN conjunct2, THEN conjunct1] by (simp add: EMERGENCY_STOP_def)
  have e: "unat (last (compose_motion_packet 2000 (- 1) 0)) div 128 = 0"
    using x[THEN conjunct2, THEN conjunct1] by simp
  have f: "butlast (compose_motion_packet 2000 (- 1) 0) = [0xC7, 0xD0, 0x3F]"
    using x[THEN conjunct1] by (simp only: a2)
  from a b c d e f show ?thesis by (intro conjI)
qed

text \<open>
  Claim C5 as it was written does not hold of this sketch: the cells of the packet of
  \<^verbatim>\<open>M 3 10 1\<close> begin 15, 7, 2 and not 15, 1, both as \<^verbatim>\<open>pack_command\<close> returns them and as
  they stand in the transmission buffer once the manager has loaded the packet.
\<close>

theorem motion_packet_second_cell:
  "take 3 (snd (snd (pack_command [0x03, 0x3F, 0x8B, 0xB7] False))) = [15, 7, 2] \<and>
   take 3 (bits (circular_buffer
     (management_service_routine (management_service_routine (management_service_routine
       (management_service_routine (scan_line_M [3, 10, 1] setup_state))))) !
     MOBILE_BASE_BUFFER)) = [15, 7, 2]"
  by (intro conjI; code_simp)

section \<open>Properties of the current monitor\<close>

lemma length_compound: "length (compound amps vs) = length vs"
  by (induction vs arbitrary: amps) simp_all

lemma compound_first:
  "vs \<noteq> [] \<Longrightarrow> compound amps vs ! 0 = shift_right (int16 (amps + vs ! 0)) 1"
  by (cases vs) simp_all

lemma compound_next:
  "Suc i < length vs \<Longrightarrow>
   compound amps vs ! Suc i = shift_right (int16 (compound amps vs ! i + vs ! Suc i)) 1"
proof (induction vs arbitrary: amps i)
  case Nil
  then show ?case by simp
next
  case (Cons v vs)
  show ?case
  proof (cases i)
    case 0
    with Cons.prems show ?thesis by (cases vs) simp_all
  next
    case (Suc j)
    with Cons.prems have "Suc j < length vs" by simp
    from Cons.IH[OF this] Suc show ?thesis by simp
  qed
qed

text \<open>Two values of 0..16383 are added without leaving the 16 bits, and the shift by one
  is then the division by 2 of C.\<close>

lemma shift_is_halving:
  assumes "0 \<le> x" and "x \<le> 16383" and "0 \<le> y" and "y \<le> 16383"
  shows "shift_right (int16 (x + y)) (Suc 0) = (x + y) sdiv 2"
proof -
  from assms have "int16 (x + y) = x + y" by (simp add: int16_id)
  with assms show ?thesis
    by (simp add: shift_right_def drop_bit_eq_div signed_divide_int_def sgn_if)
qed

lemma compound_range:
  assumes "m \<le> 16383"
  shows "0 \<le> amps \<Longrightarrow> amps \<le> m \<Longrightarrow> \<forall>v \<in> set vs. 0 \<le> v \<and> v \<le> m \<Longrightarrow>
         \<forall>v \<in> set (compound amps vs). 0 \<le> v \<and> v \<le> m"
proof (induction vs arbitrary: amps)
  case Nil
  then show ?case by simp
next
  case (Cons v vs)
  define a where "a = shift_right (int16 (amps + v)) 1"
  from Cons.prems assms have "shift_right (int16 (amps + v)) (Suc 0) = (amps + v) sdiv 2"
    by (intro shift_is_halving) auto
  then have h: "a = (amps + v) sdiv 2" by (simp add: a_def)
  from Cons.prems have "0 \<le> amps + v" "amps + v \<le> 2 * m" by auto
  then have "0 \<le> (amps + v) sdiv 2 \<and> (amps + v) sdiv 2 \<le> m"
    by (simp add: signed_divide_int_def sgn_if) linarith
  with h have a: "0 \<le> a" "a \<le> m" by simp_all
  from Cons.prems have "\<forall>v \<in> set vs. 0 \<le> v \<and> v \<le> m" by simp
  from Cons.IH[OF a this] have r: "\<forall>v \<in> set (compound a vs). 0 \<le> v \<and> v \<le> m" .
  have "compound amps (v # vs) = a # compound a vs" by (simp add: a_def)
  with a r show ?case by simp
qed

lemma report_error_keeps_load:
  "load_compound_value (report_error e a s) = load_compound_value s"
  "load_confirmed (report_error e a s) = load_confirmed s"
  by (simp_all add: report_error_def Let_def split: option.splits)

lemma send_text_keeps_load:
  "load_compound_value (send_text msg a s) = load_compound_value s"
  "load_confirmed (send_text msg a s) = load_confirmed s"
  by (simp_all add: send_text_def report_error_keeps_load Let_def split: prod.splits)

lemma power_cut_fields:
  "load_compound_value (power_cut e a s) =
     (if global_power_state s \<noteq> GLOBAL_POWER_OFF
      then replicate (length (load_compound_value s)) 0 else load_compound_value s)"
  "load_confirmed (power_cut e a s) = load_confirmed s"
  "global_power_state (power_cut e a s) = GLOBAL_POWER_OFF"
  by (auto simp: power_cut_def power_off_tracks_def Let_def send_text_keeps_load
      report_error_keeps_load send_text_keeps report_error_keeps map_replicate_const)

lemma power_cut_report:
  assumes "global_power_state s \<noteq> GLOBAL_POWER_OFF"
    and "errors_pending s < ERROR_QUEUE_SIZE"
    and "length (queue_data s) + 5 \<le> OUTPUT_QUEUE_SIZE"
  shows "error_queue (power_cut e a s) = (error_queue s)[unat (error_in s) := \<lparr>err = e, arg = a\<rparr>]"
    and "queue_data (power_cut e a s) = queue_data s @ ''[P0]'' @ [NL]"
proof -
  let ?s1 = "snd (power_off_tracks s)"
  let ?s2 = "report_error e a ?s1"
  have q: "queue_data ?s2 = queue_data s"
    by (simp add: report_error_keeps power_off_tracks_def)
  from assms(3) have "length (queue_data ?s2) + length (''[P0]'' @ [NL]) \<le> OUTPUT_QUEUE_SIZE"
    by (simp add: q)
  then have o: "queue_output (''[P0]'' @ [NL]) (queue_data ?s2) = (True, queue_data ?s2 @ ''[P0]'' @ [NL])"
    by (rule queue_output_room)
  have st: "send_text (''[P0]'' @ [NL]) (char_code CHR ''P'') ?s2 =
      ?s2\<lparr>queue_data := queue_data ?s2 @ ''[P0]'' @ [NL]\<rparr>"
    by (simp only: send_text_def o Let_def split) simp
  have pc: "power_cut e a s =
      (?s2\<lparr>queue_data := queue_data ?s2 @ ''[P0]'' @ [NL]\<rparr>)
        \<lparr>load_compound_value := map (\<lambda>v. 0) (load_compound_value ?s2)\<rparr>"
    using assms(1) by (simp add: power_cut_def Let_def split_beta power_off_tracks_def st[simplified power_off_tracks_def, simplified])
  from assms(2) have eq: "error_queue ?s2 = (error_queue s)[unat (error_in s) := \<lparr>err = e, arg = a\<rparr>]"
    by (simp add: report_error_def Let_def power_off_tracks_def)
  show "error_queue (power_cut e a s) = (error_queue s)[unat (error_in s) := \<lparr>err = e, arg = a\<rparr>]"
    by (simp add: pc eq)
  show "queue_data (power_cut e a s) = queue_data s @ ''[P0]'' @ [NL]"
    by (simp add: pc q)
qed

text \<open>
  Claim C6.  The samples of the analogue converter are never negative and the accumulators
  stay in the range of the samples: for a bound \<open>m\<close> up to 16383 (the converter gives at
  most 1023), a sample and ten accumulators in \<open>0..m\<close> leave ten accumulators in \<open>0..m\<close>.
  No sum then leaves the 16 bits of an \<^verbatim>\<open>int\<close>, and the shift the routine uses is the
  division by 2 of C.  On every such sample the routine first sets \<open>acc[0]\<close> to
  \<open>(sample + acc[0]) / 2\<close> and each \<open>acc[i+1]\<close> to \<open>(acc[i] + acc[i+1]) / 2\<close> with the new
  \<open>acc[i]\<close>, and it is of these new values that it asks whether
  \<open>acc[1] > INSTANT_CURRENT_LIMIT\<close> (a spike) or \<open>acc[9] > AVERAGE_CURRENT_LIMIT\<close> (an
  overload).  When neither holds, the new values are the accumulators the routine leaves,
  and \<^verbatim>\<open>load_confirmed\<close> is true afterwards exactly when it was true before or
  \<open>acc[2] - acc[9] > MINIMUM_DELTA_AMPS\<close>.  When one of them holds, \<^verbatim>\<open>load_confirmed\<close> is
  left as it was and the power is off afterwards; the new values are the accumulators left
  if the power was off already, and if it was on the accumulators are cleared after an
  error \<open>POWER_SPIKE\<close> or \<open>POWER_OVERLOAD\<close> was reported with the new \<open>acc[9]\<close> (here with
  room in the error queue and for the text \<^verbatim>\<open>[P0]\<close> in the output queue).
\<close>

theorem monitor_current_load_cascade:
  fixes amps m :: int and s :: firmware and accs :: "int list" and tripped :: bool
  defines "accs \<equiv> compound amps (load_compound_value s)"
  defines "tripped \<equiv> accs ! 1 > INSTANT_CURRENT_LIMIT \<or> accs ! 9 > AVERAGE_CURRENT_LIMIT"
  assumes "length (load_compound_value s) = COMPOUNDED_VALUES"
    and "m \<le> 16383" and "0 \<le> amps" and "amps \<le> m"
    and "\<forall>v \<in> set (load_compound_value s). 0 \<le> v \<and> v \<le> m"
  shows "accs ! 0 = (amps + load_compound_value s ! 0) sdiv 2 \<and>
         (\<forall>i < 9. accs ! Suc i = (accs ! i + load_compound_value s ! Suc i) sdiv 2) \<and>
         load_compound_value (monitor_current_load amps s) =
           (if tripped \<and> global_power_state s \<noteq> GLOBAL_POWER_OFF
            then replicate COMPOUNDED_VALUES 0 else accs) \<and>
         load_confirmed (monitor_current_load amps s) =
           (load_confirmed s \<or> \<not> tripped \<and> accs ! 2 - accs ! 9 > MINIMUM_DELTA_AMPS) \<and>
         global_power_state (monitor_current_load amps s) =
           (if tripped then GLOBAL_POWER_OFF else global_power_state s) \<and>
         (\<forall>v \<in> set (load_compound_value (monitor_current_load amps s)). 0 \<le> v \<and> v \<le> m) \<and>
         (tripped \<and> global_power_state s \<noteq> GLOBAL_POWER_OFF \<and>
          errors_pending s < ERROR_QUEUE_SIZE \<and> length (queue_data s) + 5 \<le> OUTPUT_QUEUE_SIZE \<longrightarrow>
            error_queue (monitor_current_load amps s) =
              (error_queue s)[unat (error_in s) :=
                 \<lparr>err = (if accs ! 1 > INSTANT_CURRENT_LIMIT then POWER_SPIKE else POWER_OVERLOAD),
                  arg = accs ! 9\<rparr>] \<and>
            queue_data (monitor_current_load amps s) = queue_data s @ ''[P0]'' @ [NL])"
proof -
  let ?old = "load_compound_value s"
  let ?s1 = "s\<lparr>load_compound_value := accs\<rparr>"
  from assms(3) have len: "length ?old = 10" by (simp add: COMPOUNDED_VALUES_def)
  then have ne: "?old \<noteq> []" by auto
  have lacc: "length accs = 10" by (simp add: accs_def length_compound len)
  then have ane: "accs \<noteq> []" by auto
  from last_conv_nth[OF ane] lacc have la: "last accs = accs ! 9" by simp
  from compound_range[OF assms(4,5,6,7)] have rng: "\<forall>v \<in> set accs. 0 \<le> v \<and> v \<le> m"
    by (simp add: accs_def)
  have old0: "0 \<le> ?old ! 0 \<and> ?old ! 0 \<le> 16383"
    using assms(4,7) len nth_mem[of 0 ?old] by fastforce
  have p1: "accs ! 0 = (amps + ?old ! 0) sdiv 2"
    using assms(4,5,6) old0 by (simp add: accs_def compound_first[OF ne] shift_is_halving)
  have p2: "\<forall>i < 9. accs ! Suc i = (accs ! i + ?old ! Suc i) sdiv 2"
  proof (intro allI impI)
    fix i :: nat
    assume "i < 9"
    with len have i: "Suc i < length ?old" by simp
    with rng lacc len assms(4) have "0 \<le> accs ! i \<and> accs ! i \<le> 16383"
      using nth_mem[of i accs] by fastforce
    moreover from assms(4,7) i have "0 \<le> ?old ! Suc i \<and> ?old ! Suc i \<le> 16383"
      using nth_mem[of "Suc i" ?old] by fastforce
    ultimately show "accs ! Suc i = (accs ! i + ?old ! Suc i) sdiv 2"
      using compound_next[OF i, of amps] by (simp add: accs_def[symmetric] shift_is_halving)
  qed
  have m: "monitor_current_load amps s =
      (if accs ! 1 > INSTANT_CURRENT_LIMIT then power_cut POWER_SPIKE (accs ! 9) ?s1
       else if accs ! 9 > AVERAGE_CURRENT_LIMIT then power_cut POWER_OVERLOAD (accs ! 9) ?s1
       else RESTART_ANALOGUE_READ
              (if accs ! 2 - accs ! 9 > MINIMUM_DELTA_AMPS then ?s1\<lparr>load_confirmed := True\<rparr>
               else ?s1))"
    using la ane
    by (simp add: monitor_current_load_def Let_def accs_def[symmetric] COMPOUNDED_VALUES_def
        SHORT_AVERAGE_VALUE_def)
  have p3: "load_compound_value (monitor_current_load amps s) =
      (if tripped \<and> global_power_state s \<noteq> GLOBAL_POWER_OFF
       then replicate COMPOUNDED_VALUES 0 else accs)"
    by (simp add: m tripped_def power_cut_fields lacc COMPOUNDED_VALUES_def RESTART_ANALOGUE_READ_def)
  have p4: "load_confirmed (monitor_current_load amps s) =
      (load_confirmed s \<or> \<not> tripped \<and> accs ! 2 - accs ! 9 > MINIMUM_DELTA_AMPS)"
    by (simp add: m tripped_def power_cut_fields RESTART_ANALOGUE_READ_def)
  have p5: "global_power_state (monitor_current_load amps s) =
      (if tripped then GLOBAL_POWER_OFF else global_power_state s)"
    by (simp add: m tripped_def power_cut_fields RESTART_ANALOGUE_READ_def)
  from assms(5,6) have "0 \<le> m" by simp
  with rng have p6: "\<forall>v \<in> set (load_compound_value (monitor_current_load amps s)). 0 \<le> v \<and> v \<le> m"
    by (simp only: p3) (simp add: COMPOUNDED_VALUES_def)
  have p7: "tripped \<and> global_power_state s \<noteq> GLOBAL_POWER_OFF \<and>
          errors_pending s < ERROR_QUEUE_SIZE \<and> length (queue_data s) + 5 \<le> OUTPUT_QUEUE_SIZE \<longrightarrow>
            error_queue (monitor_current_load amps s) =
              (error_queue s)[unat (error_in s) :=
                 \<lparr>err = (if accs ! 1 > INSTANT_CURRENT_LIMIT then POWER_SPIKE else POWER_OVERLOAD),
                  arg = accs ! 9\<rparr>] \<and>
            queue_data (monitor_current_load amps s) = queue_data s @ ''[P0]'' @ [NL]"
  proof (intro impI)
    assume h: "tripped \<and> global_power_state s \<noteq> GLOBAL_POWER_OFF \<and>
          errors_pending s < ERROR_QUEUE_SIZE \<and> length (queue_data s) + 5 \<le> OUTPUT_QUEUE_SIZE"
    then have g: "global_power_state ?s1 \<noteq> GLOBAL_POWER_OFF"
      and e: "errors_pending ?s1 < ERROR_QUEUE_SIZE"
      and q: "length (queue_data ?s1) + 5 \<le> OUTPUT_QUEUE_SIZE" by simp_all
    from h have c: "accs ! 1 > INSTANT_CURRENT_LIMIT \<or> accs ! 9 > AVERAGE_CURRENT_LIMIT"
      by (simp add: tripped_def)
    from c show "error_queue (monitor_current_load amps s) =
              (error_queue s)[unat (error_in s) :=
                 \<lparr>err = (if accs ! 1 > INSTANT_CURRENT_LIMIT then POWER_SPIKE else POWER_OVERLOAD),
                  arg = accs ! 9\<rparr>] \<and>
            queue_data (monitor_current_load amps s) = queue_data s @ ''[P0]'' @ [NL]"
      by (auto simp: m power_cut_report[OF g e q])
  qed
  from p1 p2 p3 p4 p5 p6 p7 show ?thesis by (intro conjI)
qed

theorem monitor_current_load_cascade_witness:
  "load_compound_value (monitor_current_load 600 setup_state) =
     [300, 150, 75, 37, 18, 9, 4, 2, 1, 0] \<and>
   load_confirmed (monitor_current_load 600 setup_state) \<and>
   global_power_state loaded_state = GLOBAL_POWER_MAIN \<and>
   compound 1023 (load_compound_value loaded_state) =
     [1011, 955, 477, 238, 119, 59, 29, 14, 7, 3] \<and>
   load_compound_value (monitor_current_load 1023 loaded_state) =
     [0, 0, 0, 0, 0, 0, 0, 0, 0, 0] \<and>
   \<not> load_confirmed (monitor_current_load 1023 loaded_state) \<and>
   global_power_state (monitor_current_load 1023 loaded_state) = GLOBAL_POWER_OFF \<and>
   error_queue (monitor_current_load 1023 loaded_state) ! 0 = \<lparr>err = POWER_SPIKE, arg = 3\<rparr> \<and>
   queue_data (monitor_current_load 1023 loaded_state) = ''[P1]'' @ [NL] @ ''[P0]'' @ [NL]"
proof -
  let ?old = "load_compound_value setup_state"
  have m: "(1023 :: int) \<le> 16383" by simp
  have h1: "length ?old = COMPOUNDED_VALUES" by code_simp
  have h2: "(0 :: int) \<le> 600" "(600 :: int) \<le> 1023" by simp_all
  have h3: "\<forall>v \<in> set ?old. 0 \<le> v \<and> v \<le> 1023" by (simp add: setup_state_def)
  note w = monitor_current_load_cascade[OF h1 m h2 h3]
  have c: "compound 600 ?old = [300, 150, 75, 37, 18, 9, 4, 2, 1, 0]" by code_simp
  have g: "global_power_state setup_state = GLOBAL_POWER_OFF" by code_simp
  have a1: "load_compound_value (monitor_current_load 600 setup_state) =
      [300, 150, 75, 37, 18, 9, 4, 2, 1, 0]"
    using w[THEN conjunct2, THEN conjunct2, THEN conjunct1] by (simp only: c g) simp
  have a2: "load_confirmed (monitor_current_load 600 setup_state)"
    using w[THEN conjunct2, THEN conjunct2, THEN conjunct2, THEN conjunct1]
    by (simp only: c) (simp add: INSTANT_CURRENT_LIMIT_def AVERAGE_CURRENT_LIMIT_def
        MINIMUM_DELTA_AMPS_def)
  let ?hot = "load_compound_value loaded_state"
  have k1: "length ?hot = COMPOUNDED_VALUES" by code_simp
  have k2: "(0 :: int) \<le> 1023" "(1023 :: int) \<le> 1023" by simp_all
  have k3: "\<forall>v \<in> set ?hot. 0 \<le> v \<and> v \<le> 1023" by (simp add: loaded_state_def)
  note x = monitor_current_load_cascade[OF k1 m k2 k3]
  have b1: "global_power_state loaded_state = GLOBAL_POWER_MAIN" by code_simp
  have b2: "compound 1023 ?hot = [1011, 955, 477, 238, 119, 59, 29, 14, 7, 3]" by code_simp
  have b3: "load_compound_value (monitor_current_load 1023 loaded_state) =
      [0, 0, 0, 0, 0, 0, 0, 0, 0, 0]"
    using x[THEN conjunct2, THEN conjunct2, THEN conjunct1]
    by (simp only: b1 b2) (simp add: INSTANT_CURRENT_LIMIT_def COMPOUNDED_VALUES_def
        eval_nat_numeral)
  have lc: "\<not> load_confirmed loaded_state" by code_simp
  have b4: "\<not> load_confirmed (monitor_current_load 1023 loaded_state)"
    using x[THEN conjunct2, THEN conjunct2, THEN conjunct2, THEN conjunct1] lc
    by (simp only: b2) (simp add: INSTANT_CURRENT_LIMIT_def)
  have b5: "global_power_state (monitor_current_load 1023 loaded_state) = GLOBAL_POWER_OFF"
    using x[THEN conjunct2, THEN conjunct2, THEN conjunct2, THEN conjunct2, THEN conjunct1]
    by (simp only: b2) (simp add: INSTANT_CURRENT_LIMIT_def)
  have pre: "(compound 1023 ?hot ! 1 > INSTANT_CURRENT_LIMIT \<or>
       compound 1023 ?hot ! 9 > AVERAGE_CURRENT_LIMIT) \<and>
      global_power_state loaded_state \<noteq> GLOBAL_POWER_OFF \<and>
      errors_pending loaded_state < ERROR_QUEUE_SIZE \<and>
      length (queue_data loaded_state) + 5 \<le> OUTPUT_QUEUE_SIZE"
    by (intro conjI; code_simp)
  note d = x[THEN conjunct2, THEN conjunct2, THEN conjunct2, THEN conjunct2, THEN conjunct2,
      THEN conjunct2, rule_format, OF pre]
  have e: "(error_queue loaded_state)[unat (error_in loaded_state) :=
      \<lparr>err = (if compound 1023 ?hot ! 1 > INSTANT_CURRENT_LIMIT then POWER_SPIKE
              else POWER_OVERLOAD),
       arg = compound 1023 ?hot ! 9\<rparr>] ! 0 = \<lparr>err = POWER_SPIKE, arg = 3\<rparr>"
    by code_simp
  have b6: "error_queue (monitor_current_load 1023 loaded_state) ! 0 =
      \<lparr>err = POWER_SPIKE, arg = 3\<rparr>"
    using e by (simp only: d[THEN conjunct1])
  have q: "queue_data loaded_state @ ''[P0]'' @ [NL] = ''[P1]'' @ [NL] @ ''[P0]'' @ [NL]"
    by code_simp
  have b7: "queue_data (monitor_current_load 1023 loaded_state) =
      ''[P1]'' @ [NL] @ ''[P0]'' @ [NL]"
    using d[THEN conjunct2] by (simp only: q)
  from a1 a2 b1 b2 b3 b4 b5 b6 b7 show ?thesis by (intro conjI)
qed


end
